theory Spec2Isabelle
  imports Main "HOL-Library.Sublist" "HOL-Library.Word"
begin

section \<open>Strings of the host language\<close>

text \<open>
  A string of the host language is a sequence of UTF-16 code units: a list of 16-bit
  words. \<open>cu\<close> is the code unit of an ASCII or Latin-1 character and \<open>js\<close> the string of
  a literal of the source. The text of the request body (the markdown, and every line,
  item, url and caption cut from it) has this type. The fixed literals of the source that
  no input flows into (block type tags, the colour, the language tag, the error
  messages) and the method and header values of the HTTP request stay \<^typ>\<open>string\<close>.

  The operations are the ones \<^verbatim>\<open>main.ts\<close> calls on strings, with the host
  language's conventions: \<^verbatim>\<open>substr(i, n)\<close> and \<^verbatim>\<open>slice(a, b)\<close> clip at
  the end of the string, \<^verbatim>\<open>indexOf(pat, from)\<close> answers the least position at or
  after \<^verbatim>\<open>from\<close> where \<^verbatim>\<open>pat\<close> starts, and \<^verbatim>\<open>-1\<close> (here
  \<^term>\<open>None\<close>) when there is none.
\<close>

type_synonym codeUnit = "16 word"

type_synonym jsString = "codeUnit list"

definition cu :: "char \<Rightarrow> codeUnit" where
  "cu c = of_char c"

abbreviation js :: "string \<Rightarrow> jsString" where
  "js s \<equiv> map cu s"

definition substr :: "'a list \<Rightarrow> nat \<Rightarrow> nat \<Rightarrow> 'a list" where
  "substr s i n = take n (drop i s)"

definition slice :: "'a list \<Rightarrow> nat \<Rightarrow> nat \<Rightarrow> 'a list" where
  "slice s a b = take (b - a) (drop a s)"

definition startsWith :: "'a list \<Rightarrow> 'a list \<Rightarrow> bool" where
  "startsWith s p = (take (length p) s = p)"

definition endsWith :: "'a list \<Rightarrow> 'a list \<Rightarrow> bool" where
  "endsWith s p = (length p \<le> length s \<and> drop (length s - length p) s = p)"

fun indexOf_from :: "'a list \<Rightarrow> 'a list \<Rightarrow> nat \<Rightarrow> nat option" where
  "indexOf_from pat [] k = (if pat = [] then Some k else None)"
| "indexOf_from pat (c # cs) k =
     (if startsWith (c # cs) pat then Some k else indexOf_from pat cs (Suc k))"

definition indexOf :: "'a list \<Rightarrow> 'a list \<Rightarrow> nat \<Rightarrow> nat option" where
  "indexOf s pat from = indexOf_from pat (drop from s) (min from (length s))"

definition includesStr :: "'a list \<Rightarrow> 'a list \<Rightarrow> bool" where
  "includesStr s pat = (indexOf s pat 0 \<noteq> None)"

text \<open>\<^verbatim>\<open>s[i]\<close>: the code unit at \<open>i\<close>, \<^verbatim>\<open>undefined\<close> past the end.\<close>

definition charAt :: "'a list \<Rightarrow> nat \<Rightarrow> 'a option" where
  "charAt s i = (if i < length s then Some (s ! i) else None)"

section \<open>Rich text\<close>

text \<open>
  \<^verbatim>\<open>RichText\<close> of \<^verbatim>\<open>main.ts\<close>: the constant field \<^verbatim>\<open>type: 'text'\<close> is left
  out, \<^verbatim>\<open>text.content\<close> is the field \<open>content\<close>. The second argument of
  \<^verbatim>\<open>createRichText\<close> is a partial annotation object: each key is present or not.
\<close>

record Annotations =
  bold :: bool
  italic :: bool
  strikethrough :: bool
  underline :: bool
  code :: bool
  color :: string

record RichText =
  content :: jsString
  annotations :: Annotations

record PartialAnnotations =
  p_bold :: "bool option"
  p_italic :: "bool option"
  p_strikethrough :: "bool option"
  p_underline :: "bool option"
  p_code :: "bool option"
  p_color :: "string option"

text \<open>The default argument \<^verbatim>\<open>{}\<close> of \<^verbatim>\<open>createRichText\<close>.\<close>

definition noAnnotations :: PartialAnnotations where
  "noAnnotations = \<lparr>p_bold = None, p_italic = None, p_strikethrough = None,
     p_underline = None, p_code = None, p_color = None\<rparr>"

text \<open>The defaults, overridden by the keys that \<^verbatim>\<open>...annotations\<close> carries.\<close>

definition createRichText :: "jsString \<Rightarrow> PartialAnnotations \<Rightarrow> RichText" where
  "createRichText c a =
     \<lparr>content = c,
      annotations =
        \<lparr>bold = (case p_bold a of Some b \<Rightarrow> b | None \<Rightarrow> False),
         italic = (case p_italic a of Some b \<Rightarrow> b | None \<Rightarrow> False),
         strikethrough = (case p_strikethrough a of Some b \<Rightarrow> b | None \<Rightarrow> False),
         underline = (case p_underline a of Some b \<Rightarrow> b | None \<Rightarrow> False),
         code = (case p_code a of Some b \<Rightarrow> b | None \<Rightarrow> False),
         color = (case p_color a of Some s \<Rightarrow> s | None \<Rightarrow> ''default'')\<rparr>\<rparr>"

section \<open>The inline tokenizer\<close>

text \<open>
  \<^verbatim>\<open>currentAnnotations\<close> of \<^verbatim>\<open>parseInlineStyles\<close>: five keys, all false, never
  assigned again; it has no \<^verbatim>\<open>color\<close> key.
\<close>

definition currentAnnotations :: PartialAnnotations where
  "currentAnnotations = \<lparr>p_bold = Some False, p_italic = Some False,
     p_strikethrough = Some False, p_underline = Some False, p_code = Some False,
     p_color = None\<rparr>"

text \<open>
  The block \<^verbatim>\<open>if (currentText) { segments.push(createRichText(currentText, ...)) }\<close>
  that every branch of the loop and the end of the function repeat.
\<close>

definition pushPending :: "jsString \<Rightarrow> RichText list \<Rightarrow> RichText list" where
  "pushPending currentText segments =
     (if currentText \<noteq> [] then segments @ [createRichText currentText currentAnnotations]
      else segments)"

lemma indexOf_from_bounds:
  "indexOf_from pat s k = Some e \<Longrightarrow> k \<le> e \<and> e + length pat \<le> k + length s"
proof (induction s arbitrary: k)
  case Nil
  then show ?case by (simp split: if_splits)
next
  case (Cons c cs)
  show ?case
  proof (cases "startsWith (c # cs) pat")
    case True
    then have "length (take (length pat) (c # cs)) = length pat"
      unfolding startsWith_def by simp
    then have "length pat \<le> length (c # cs)" by simp
    with True Cons.prems show ?thesis by simp
  next
    case False
    with Cons.prems have "indexOf_from pat cs (Suc k) = Some e" by simp
    from Cons.IH [OF this] show ?thesis by simp
  qed
qed

lemma indexOf_bounds:
  assumes "indexOf s pat from = Some e" and "pat \<noteq> []"
  shows "from \<le> e" and "e + length pat \<le> length s"
proof -
  have le: "from \<le> length s"
  proof (rule ccontr)
    assume "\<not> from \<le> length s"
    then have "drop from s = []" by simp
    with assms show False by (simp add: indexOf_def)
  qed
  from indexOf_from_bounds [of pat "drop from s" "min from (length s)" e] assms le
  show "from \<le> e" and "e + length pat \<le> length s"
    by (simp_all add: indexOf_def min_def)
qed

lemma indexOf_decr:
  assumes "indexOf text pat from = Some y" and "pat \<noteq> []" and "i < from" and "i < length text"
  shows "length text - Suc y < length text - i"
    and "length text - Suc (Suc y) < length text - i"
  using indexOf_bounds(1) [OF assms(1,2)] assms(3,4) by arith+

text \<open>
  The loop of \<^verbatim>\<open>parseInlineStyles\<close>, with its variables \<^verbatim>\<open>i\<close>,
  \<^verbatim>\<open>currentText\<close> and \<^verbatim>\<open>segments\<close> as arguments. The branches are in the
  order of the source: bold, italic, underline, strikethrough, code, plain character.
\<close>

function pis_loop :: "jsString \<Rightarrow> nat \<Rightarrow> jsString \<Rightarrow> RichText list \<Rightarrow> RichText list" where
  "pis_loop text i currentText segments =
     (if i < length text then
        if substr text i 2 = (js ''**'') \<and> indexOf text (js ''**'') (i + 2) \<noteq> None then
          let endBold = the (indexOf text (js ''**'') (i + 2));
              boldText = slice text (i + 2) endBold
          in pis_loop text (endBold + 2) []
               (pushPending currentText segments
                  @ [createRichText boldText (currentAnnotations\<lparr>p_bold := Some True\<rparr>)])
        else if charAt text i = Some (cu (CHR ''_'')) \<and> indexOf text (js ''_'') (i + 1) \<noteq> None then
          let endItalic = the (indexOf text (js ''_'') (i + 1));
              italicText = slice text (i + 1) endItalic
          in pis_loop text (endItalic + 1) []
               (pushPending currentText segments
                  @ [createRichText italicText (currentAnnotations\<lparr>p_italic := Some True\<rparr>)])
        else if substr text i 2 = (js ''__'') \<and> indexOf text (js ''__'') (i + 2) \<noteq> None then
          let endUnderline = the (indexOf text (js ''__'') (i + 2));
              underlineText = slice text (i + 2) endUnderline
          in pis_loop text (endUnderline + 2) []
               (pushPending currentText segments
                  @ [createRichText underlineText (currentAnnotations\<lparr>p_underline := Some True\<rparr>)])
        else if substr text i 2 = (js ''~~'') \<and> indexOf text (js ''~~'') (i + 2) \<noteq> None then
          let endStrike = the (indexOf text (js ''~~'') (i + 2));
              strikeText = slice text (i + 2) endStrike
          in pis_loop text (endStrike + 2) []
               (pushPending currentText segments
                  @ [createRichText strikeText (currentAnnotations\<lparr>p_strikethrough := Some True\<rparr>)])
        else if charAt text i = Some (cu (CHR 0x60)) \<and> indexOf text [cu (CHR 0x60)] (i + 1) \<noteq> None then
          let endCode = the (indexOf text [cu (CHR 0x60)] (i + 1));
              codeText = slice text (i + 1) endCode
          in pis_loop text (endCode + 1) []
               (pushPending currentText segments
                  @ [createRichText codeText (currentAnnotations\<lparr>p_code := Some True\<rparr>)])
        else pis_loop text (i + 1) (currentText @ [text ! i]) segments
      else pushPending currentText segments)"
  by pat_completeness auto
termination
proof (relation "measure (\<lambda>(text, i, currentText, segments). length text - i)")
  show "wf (measure (\<lambda>(text, i, currentText, segments). length text - i))" by simp
qed (auto intro: indexOf_decr(1) indexOf_decr(2))

definition parseInlineStyles :: "jsString \<Rightarrow> RichText list" where
  "parseInlineStyles text = pis_loop text 0 [] []"

section \<open>Blocks\<close>

text \<open>
  \<^verbatim>\<open>NotionBlock\<close>: \<^verbatim>\<open>createBlock(type, content)\<close> builds
  \<^verbatim>\<open>{ object: "block", type, [type]: content }\<close>. The constant \<^verbatim>\<open>object\<close> is left
  out; \<open>payload\<close> is the value stored under the key named by \<open>btype\<close>, one constructor
  for each shape of content the converters pass.
\<close>

datatype BlockContent =
    RichTextContent "RichText list"
  | ExternalContent jsString
  | BookmarkContent jsString "RichText list"
  | CodeContent "RichText list" string
  | EmptyContent

record NotionBlock =
  btype :: string
  payload :: BlockContent

definition createBlock :: "string \<Rightarrow> BlockContent \<Rightarrow> NotionBlock" where
  "createBlock t c = \<lparr>btype = t, payload = c\<rparr>"

definition createHeading1 :: "jsString \<Rightarrow> NotionBlock" where
  "createHeading1 text = createBlock ''heading_1'' (RichTextContent (parseInlineStyles text))"

definition createHeading2 :: "jsString \<Rightarrow> NotionBlock" where
  "createHeading2 text = createBlock ''heading_2'' (RichTextContent (parseInlineStyles text))"

definition createHeading3 :: "jsString \<Rightarrow> NotionBlock" where
  "createHeading3 text = createBlock ''heading_3'' (RichTextContent (parseInlineStyles text))"

definition createParagraph :: "jsString \<Rightarrow> NotionBlock" where
  "createParagraph text = createBlock ''paragraph'' (RichTextContent (parseInlineStyles text))"

definition createBulletList :: "jsString list \<Rightarrow> NotionBlock list" where
  "createBulletList items =
     map (\<lambda>item. createBlock ''bulleted_list_item'' (RichTextContent (parseInlineStyles item))) items"

definition createNumberedList :: "jsString list \<Rightarrow> NotionBlock list" where
  "createNumberedList items =
     map (\<lambda>item. createBlock ''numbered_list_item'' (RichTextContent (parseInlineStyles item))) items"

text \<open>\<^verbatim>\<open>{ type: "external", external: { url } }\<close> is \<open>ExternalContent url\<close>.\<close>

definition createImage :: "jsString \<Rightarrow> NotionBlock" where
  "createImage url = createBlock ''image'' (ExternalContent url)"

definition createVideo :: "jsString \<Rightarrow> NotionBlock" where
  "createVideo url = createBlock ''video'' (ExternalContent url)"

text \<open>\<^verbatim>\<open>caption ? this.parseInlineStyles(caption) : []\<close>: the empty string is falsy.\<close>

definition createBookmark :: "jsString \<Rightarrow> jsString \<Rightarrow> NotionBlock" where
  "createBookmark url caption =
     createBlock ''bookmark''
       (BookmarkContent url (if caption \<noteq> [] then parseInlineStyles caption else []))"

definition createCodeBlock :: "jsString \<Rightarrow> string \<Rightarrow> NotionBlock" where
  "createCodeBlock code_text language =
     createBlock ''code'' (CodeContent [createRichText code_text noAnnotations] language)"

definition createQuote :: "jsString \<Rightarrow> NotionBlock" where
  "createQuote text = createBlock ''quote'' (RichTextContent (parseInlineStyles text))"

definition createDivider :: NotionBlock where
  "createDivider = createBlock ''divider'' EmptyContent"

section \<open>Whitespace, trimming, splitting and the patterns of the parser\<close>

text \<open>
  The code units that \<^verbatim>\<open>trim()\<close> strips and \<^verbatim>\<open>\s\<close> matches (white space and
  line terminators): tab, line feed, vertical tab, form feed, carriage return, space,
  no-break space, U+1680, U+2000 to U+200A, line separator U+2028, paragraph separator
  U+2029, U+202F, U+205F, U+3000 and U+FEFF. The line terminators, which \<^verbatim>\<open>.\<close> does
  not match in a pattern without the \<^verbatim>\<open>s\<close> flag, are line feed, carriage return,
  U+2028 and U+2029. \<^verbatim>\<open>\d\<close> matches the ten ASCII digits.
\<close>

definition LF :: codeUnit where "LF = 0x000A"

definition CR :: codeUnit where "CR = 0x000D"

definition LS :: codeUnit where "LS = 0x2028"

definition PS :: codeUnit where "PS = 0x2029"

definition isSpace :: "codeUnit \<Rightarrow> bool" where
  "isSpace c =
     (c \<in> {0x0009, 0x000A, 0x000B, 0x000C, 0x000D, 0x0020, 0x00A0, 0x1680,
            0x2000, 0x2001, 0x2002, 0x2003, 0x2004, 0x2005, 0x2006, 0x2007, 0x2008, 0x2009,
            0x200A, 0x2028, 0x2029, 0x202F, 0x205F, 0x3000, 0xFEFF})"

definition isLineTerminator :: "codeUnit \<Rightarrow> bool" where
  "isLineTerminator c = (c = LF \<or> c = CR \<or> c = LS \<or> c = PS)"

definition isDigit :: "codeUnit \<Rightarrow> bool" where
  "isDigit c = (c \<in> set (js ''0123456789''))"

definition trim :: "jsString \<Rightarrow> jsString" where
  "trim s = rev (dropWhile isSpace (rev (dropWhile isSpace s)))"

text \<open>\<^verbatim>\<open>s.split('\n')\<close>: the pieces between line feeds; the empty string has one piece.\<close>

fun split_nl :: "jsString \<Rightarrow> jsString list" where
  "split_nl [] = [[]]"
| "split_nl (c # cs) =
     (if c = LF then [] # split_nl cs
      else (case split_nl cs of l # ls \<Rightarrow> (c # l) # ls | [] \<Rightarrow> [[c]]))"

text \<open>\<^verbatim>\<open>.replace(/\r\n/g, '\n')\<close>\<close>

fun replace_crlf :: "jsString \<Rightarrow> jsString" where
  "replace_crlf (a # b # cs) =
     (if a = CR \<and> b = LF then LF # replace_crlf cs else a # replace_crlf (b # cs))"
| "replace_crlf cs = cs"

text \<open>
  \<^verbatim>\<open>.replace(/\n\s*\n/g, '\n')\<close>. A match starts at a line feed; the greedy
  \<^verbatim>\<open>\s*\<close> takes the whole run of whitespace behind it and gives characters back until
  a line feed follows, so the match ends at the last line feed of that run, if the run has
  one. The search goes on behind the match.
\<close>

fun lastNewline :: "jsString \<Rightarrow> nat option" where
  "lastNewline [] = None"
| "lastNewline (c # cs) =
     (case lastNewline cs of
        Some j \<Rightarrow> Some (Suc j)
      | None \<Rightarrow> if c = LF then Some 0 else None)"

function removeEmptyLines :: "jsString \<Rightarrow> jsString" where
  "removeEmptyLines [] = []"
| "removeEmptyLines (c # cs) =
     (if c = LF then
        (case lastNewline (takeWhile isSpace cs) of
           Some j \<Rightarrow> LF # removeEmptyLines (drop (Suc j) cs)
         | None \<Rightarrow> c # removeEmptyLines cs)
      else c # removeEmptyLines cs)"
  by pat_completeness auto
termination
  by (relation "measure length") auto

definition cleanMarkdown :: "jsString \<Rightarrow> jsString" where
  "cleanMarkdown markdown = trim (removeEmptyLines (replace_crlf markdown))"

text \<open>
  \<^verbatim>\<open>/^\d+\.\s/\<close>: the length of the match at the start of the line. The digits are
  taken greedily; giving digits back cannot help, since a digit is not a full stop.
\<close>

definition numberedPrefix :: "jsString \<Rightarrow> nat option" where
  "numberedPrefix line =
     (let ds = takeWhile isDigit line
      in if ds \<noteq> [] then
           (case dropWhile isDigit line of
              a # b # _ \<Rightarrow> if a = cu (CHR ''.'') \<and> isSpace b then Some (length ds + 2) else None
            | _ \<Rightarrow> None)
         else None)"

text \<open>
  \<^verbatim>\<open>(.*?)\<close> in front of the rest of a pattern: the rest \<open>k\<close> is tried on what is
  left; when it fails, the group takes one more character, unless that character is a line
  terminator. The result is the captured text and what the rest returns.
\<close>

fun lazyDot :: "(jsString \<Rightarrow> 'a option) \<Rightarrow> jsString \<Rightarrow> jsString \<Rightarrow> (jsString \<times> 'a) option" where
  "lazyDot k acc [] = (case k [] of Some r \<Rightarrow> Some (rev acc, r) | None \<Rightarrow> None)"
| "lazyDot k acc (c # cs) =
     (case k (c # cs) of
        Some r \<Rightarrow> Some (rev acc, r)
      | None \<Rightarrow> if isLineTerminator c then None else lazyDot k (c # acc) cs)"

text \<open>\<^verbatim>\<open>s.match(re)\<close> without the global flag: the match at the leftmost start.\<close>

fun firstMatch :: "(jsString \<Rightarrow> 'a option) \<Rightarrow> jsString \<Rightarrow> 'a option" where
  "firstMatch m [] = m []"
| "firstMatch m (c # cs) = (case m (c # cs) of Some r \<Rightarrow> Some r | None \<Rightarrow> firstMatch m cs)"

definition literal :: "jsString \<Rightarrow> jsString \<Rightarrow> unit option" where
  "literal p s = (if startsWith s p then Some () else None)"

text \<open>\<^verbatim>\<open>/\((.*?)\)/\<close> at the start of \<open>s\<close>: the first capture group.\<close>

definition parenAt :: "jsString \<Rightarrow> jsString option" where
  "parenAt s =
     (if startsWith s (js ''('') then map_option fst (lazyDot (literal (js '')'')) [] (drop 1 s))
      else None)"

definition matchParen :: "jsString \<Rightarrow> jsString option" where
  "matchParen line = firstMatch parenAt line"

text \<open>\<^verbatim>\<open>/\[(.*?)\]\((.*?)\)/\<close> at the start of \<open>s\<close>: the two capture groups.\<close>

definition linkAt :: "jsString \<Rightarrow> (jsString \<times> jsString) option" where
  "linkAt s =
     (if startsWith s (js ''['') then
        map_option (\<lambda>(t, u, _). (t, u))
          (lazyDot (\<lambda>r. if startsWith r (js '']('')
                         then lazyDot (literal (js '')'')) [] (drop 2 r) else None) [] (drop 1 s))
      else None)"

definition matchLink :: "jsString \<Rightarrow> (jsString \<times> jsString) option" where
  "matchLink line = firstMatch linkAt line"

section \<open>The line classifier\<close>

text \<open>
  A thrown value: an instance of \<^verbatim>\<open>Error\<close> with its message, or anything else.
\<close>

datatype exn = ErrorInstance string | OtherValue

datatype ListType = bulletList | numberList

text \<open>
  The variables of \<^verbatim>\<open>parseMarkdown\<close> that the loop assigns: \<^verbatim>\<open>blocks\<close>,
  \<^verbatim>\<open>currentList\<close>, \<^verbatim>\<open>isInList\<close> and \<^verbatim>\<open>listType\<close> (\<^verbatim>\<open>null\<close> is
  \<^term>\<open>None\<close>).
\<close>

record ParserState =
  blocks :: "NotionBlock list"
  currentList :: "jsString list"
  isInList :: bool
  listType :: "ListType option"

definition initialState :: ParserState where
  "initialState = \<lparr>blocks = [], currentList = [], isInList = False, listType = None\<rparr>"

text \<open>
  \<^verbatim>\<open>this.blockConverters[listType!].call(this, currentList)\<close>. With \<^verbatim>\<open>listType\<close>
  still \<^verbatim>\<open>null\<close> the lookup gives \<^verbatim>\<open>undefined\<close> and the call throws a
  \<^verbatim>\<open>TypeError\<close>; its message is the engine's, here the one of V8. The branch is
  part of the model although no run of the parser reaches it (\<open>parseMarkdown_returns\<close>
  below).
\<close>

definition convertList :: "ListType option \<Rightarrow> jsString list \<Rightarrow> exn + NotionBlock list" where
  "convertList t items =
     (case t of
        Some bulletList \<Rightarrow> Inr (createBulletList items)
      | Some numberList \<Rightarrow> Inr (createNumberedList items)
      | None \<Rightarrow> Inl (ErrorInstance ''Cannot read properties of undefined (reading 'call')''))"

text \<open>
  The block that every branch except the two list branches starts with:
  \<^verbatim>\<open>if (isInList) { blocks.push(...); currentList = []; isInList = false; }\<close>
\<close>

definition flushList :: "ParserState \<Rightarrow> exn + ParserState" where
  "flushList st =
     (if isInList st then
        (case convertList (listType st) (currentList st) of
           Inl e \<Rightarrow> Inl e
         | Inr bs \<Rightarrow> Inr (st\<lparr>blocks := blocks st @ bs, currentList := [], isInList := False\<rparr>))
      else Inr st)"

text \<open>
  The start of a list branch for the list type \<open>t\<close>:
  \<^verbatim>\<open>if (!isInList || listType !== t) { if (isInList) { blocks.push(...); currentList = []; }
  isInList = true; listType = t; }\<close>
\<close>

definition enterList :: "ListType \<Rightarrow> ParserState \<Rightarrow> exn + ParserState" where
  "enterList t st =
     (if \<not> isInList st \<or> listType st \<noteq> Some t then
        (if isInList st then
           (case convertList (listType st) (currentList st) of
              Inl e \<Rightarrow> Inl e
            | Inr bs \<Rightarrow>
                Inr (st\<lparr>blocks := blocks st @ bs, currentList := [],
                       isInList := True, listType := Some t\<rparr>))
         else Inr (st\<lparr>isInList := True, listType := Some t\<rparr>))
      else Inr st)"

definition pushBlock :: "NotionBlock \<Rightarrow> ParserState \<Rightarrow> ParserState" where
  "pushBlock b st = st\<lparr>blocks := blocks st @ [b]\<rparr>"

definition pushItem :: "jsString \<Rightarrow> ParserState \<Rightarrow> ParserState" where
  "pushItem item st = st\<lparr>currentList := currentList st @ [item]\<rparr>"

text \<open>The guards of the image and the bookmark branch.\<close>

definition imageGuard :: "jsString \<Rightarrow> bool" where
  "imageGuard line = (startsWith line (js ''!['') \<and> includesStr line (js '']('')  \<and> endsWith line (js '')''))"

definition linkGuard :: "jsString \<Rightarrow> bool" where
  "linkGuard line = (startsWith line (js ''['') \<and> includesStr line (js '']('')  \<and> endsWith line (js '')''))"

text \<open>
  The body of the loop behind \<^verbatim>\<open>if (!line) continue\<close>: \<open>line\<close> is trimmed and not
  empty. The branches are in the order of the source; \<^verbatim>\<open>continue\<close> in the image and
  the bookmark branch leaves the state as the flush left it.
\<close>

definition parseLine :: "ParserState \<Rightarrow> jsString \<Rightarrow> exn + ParserState" where
  "parseLine st line =
     (if startsWith line (js ''# '') then
        map_sum id (pushBlock (createHeading1 (drop 2 line))) (flushList st)
      else if startsWith line (js ''## '') then
        map_sum id (pushBlock (createHeading2 (drop 3 line))) (flushList st)
      else if startsWith line (js ''### '') then
        map_sum id (pushBlock (createHeading3 (drop 4 line))) (flushList st)
      else if startsWith line (js ''* '') \<or> startsWith line (js ''- '') then
        map_sum id (pushItem (drop 2 line)) (enterList bulletList st)
      else if numberedPrefix line \<noteq> None then
        map_sum id (pushItem (drop (the (numberedPrefix line)) line)) (enterList numberList st)
      else if startsWith line [cu (CHR 0x60)] then
        map_sum id
          (pushBlock (createCodeBlock (slice line 1 (length line - 1)) ''javascript''))
          (flushList st)
      else if startsWith line (js ''> '') then
        map_sum id (pushBlock (createQuote (drop 2 line))) (flushList st)
      else if imageGuard line then
        map_sum id
          (\<lambda>st'. case matchParen line of
                    None \<Rightarrow> st'
                  | Some url \<Rightarrow> pushBlock (createImage url) st')
          (flushList st)
      else if linkGuard line then
        map_sum id
          (\<lambda>st'. case matchLink line of
                    None \<Rightarrow> st'
                  | Some (text, url) \<Rightarrow> pushBlock (createBookmark url text) st')
          (flushList st)
      else
        map_sum id (pushBlock (createParagraph line)) (flushList st))"

text \<open>The loop over the lines, with \<^verbatim>\<open>line = line.trim(); if (!line) continue;\<close>\<close>

fun parseLines :: "ParserState \<Rightarrow> jsString list \<Rightarrow> exn + ParserState" where
  "parseLines st [] = Inr st"
| "parseLines st (l # ls) =
     (let line = trim l
      in if line = [] then parseLines st ls
         else (case parseLine st line of
                 Inl e \<Rightarrow> Inl e
               | Inr st' \<Rightarrow> parseLines st' ls))"

text \<open>
  Behind the loop: \<^verbatim>\<open>if (isInList && currentList.length > 0) blocks.push(...)\<close>, and
  the result is \<^verbatim>\<open>blocks\<close>.
\<close>

definition finish :: "ParserState \<Rightarrow> exn + NotionBlock list" where
  "finish st =
     (if isInList st \<and> length (currentList st) > 0 then
        map_sum id (\<lambda>bs. blocks st @ bs) (convertList (listType st) (currentList st))
      else Inr (blocks st))"

definition parseMarkdown :: "jsString \<Rightarrow> exn + NotionBlock list" where
  "parseMarkdown markdown =
     (case parseLines initialState (split_nl (cleanMarkdown markdown)) of
        Inl e \<Rightarrow> Inl e
      | Inr st \<Rightarrow> finish st)"

section \<open>The request adapter\<close>

record MainArgs =
  md :: "jsString option"
  ow_method :: "string option"
  ow_headers :: "(string \<rightharpoonup> string) option"

datatype Body = ErrorBody string | ChildrenBody "NotionBlock list"

record MainResponse =
  body :: Body
  statusCode :: nat
  headers :: "(string \<times> string) list"

text \<open>\<^verbatim>\<open>toLowerCase()\<close> on the code units below 256.\<close>

definition toLowerChar :: "char \<Rightarrow> char" where
  "toLowerChar c =
     (let n = of_char c :: nat
      in if (65 \<le> n \<and> n \<le> 90) \<or> (192 \<le> n \<and> n \<le> 222 \<and> n \<noteq> 215)
         then char_of (n + 32) else c)"

definition toLowerCase :: "string \<Rightarrow> string" where
  "toLowerCase s = map toLowerChar s"

definition usage :: string where
  "usage = '' With a body containing markdown in a \"md\" field. example: {\"md\": \"## Hello World\"}''"

definition methodNotAllowed :: string where
  "methodNotAllowed = ''Method not allowed. Only POST requests are supported.'' @ usage"

definition unsupportedMediaType :: string where
  "unsupportedMediaType =
     ''Unsupported Media Type. Please send request with application/json content type.'' @ usage"

definition badRequest :: string where
  "badRequest = ''Bad Request: No markdown content provided in the request body.'' @ usage"

definition jsonHeader :: "(string \<times> string) list" where
  "jsonHeader = [(''Content-Type'', ''application/json'')]"

text \<open>
  \<^verbatim>\<open>error instanceof Error ? error.message : 'Unknown error occurred'\<close>
\<close>

definition failureText :: "exn \<Rightarrow> string" where
  "failureText e = (case e of ErrorInstance m \<Rightarrow> m | OtherValue \<Rightarrow> ''Unknown error occurred'')"

text \<open>
  \<^verbatim>\<open>args.__ow_method && args.__ow_method.toLowerCase() !== 'post'\<close>: a string that is
  absent or empty is falsy.
\<close>

definition notPost :: "MainArgs \<Rightarrow> bool" where
  "notPost args =
     (case ow_method args of Some m \<Rightarrow> m \<noteq> [] \<and> toLowerCase m \<noteq> ''post'' | None \<Rightarrow> False)"

text \<open>\<^verbatim>\<open>args.__ow_headers?.['content-type'] || ''\<close>\<close>

definition contentTypeOf :: "MainArgs \<Rightarrow> string" where
  "contentTypeOf args =
     (case ow_headers args of
        None \<Rightarrow> []
      | Some h \<Rightarrow> (case h ''content-type'' of None \<Rightarrow> [] | Some v \<Rightarrow> v))"

text \<open>
  \<^verbatim>\<open>main\<close>, with the call \<^verbatim>\<open>converter.parseMarkdown(args.md)\<close> inside the
  \<^verbatim>\<open>try\<close> as the parameter \<open>convert\<close>: whatever the call throws reaches the
  \<^verbatim>\<open>catch\<close>.
\<close>

definition main_with :: "(jsString \<Rightarrow> exn + NotionBlock list) \<Rightarrow> MainArgs \<Rightarrow> MainResponse" where
  "main_with convert args =
     (if notPost args then
        \<lparr>body = ErrorBody methodNotAllowed, statusCode = 405,
         headers = [(''Content-Type'', ''application/json''), (''Allow'', ''POST'')]\<rparr>
      else
        let contentType = contentTypeOf args
        in if contentType \<noteq> [] \<and> \<not> includesStr contentType ''application/json'' then
             \<lparr>body = ErrorBody unsupportedMediaType, statusCode = 415, headers = jsonHeader\<rparr>
           else if md args = None \<or> md args = Some [] then
             \<lparr>body = ErrorBody badRequest, statusCode = 400, headers = jsonHeader\<rparr>
           else
             (case convert (the (md args)) of
                Inr bs \<Rightarrow> \<lparr>body = ChildrenBody bs, statusCode = 200, headers = jsonHeader\<rparr>
              | Inl e \<Rightarrow>
                  \<lparr>body = ErrorBody (''Internal Server Error: '' @ failureText e),
                   statusCode = 500, headers = jsonHeader\<rparr>))"

definition main :: "MainArgs \<Rightarrow> MainResponse" where
  "main args = main_with parseMarkdown args"

section \<open>The tokenizer as the specification describes it\<close>

text \<open>
  Following the spec (section 4.1): a single left-to-right scan; at each position the
  opening marker of each style is tried in the fixed priority order bold, italic,
  underline, strikethrough, inline code, and a marker opens a span only when the same
  marker occurs again later in the line (the nearest such occurrence closes it).
  \<open>strip_matched\<close> is the line with exactly those opening and closing markers removed:
  the text of a delimited span is kept, a character that opens nothing is kept.
\<close>

definition markers :: "jsString list" where
  "markers = [(js ''**''), (js ''_''), (js ''__''), (js ''~~''), [cu (CHR 0x60)]]"

definition opens :: "jsString \<Rightarrow> jsString \<Rightarrow> bool" where
  "opens d s = (startsWith s d \<and> indexOf_from d (drop (length d) s) 0 \<noteq> None)"

definition opener :: "jsString \<Rightarrow> jsString option" where
  "opener s = find (\<lambda>d. opens d s) markers"

text \<open>No position of the line holds a marker that has a matching closer.\<close>

fun noneOpens :: "jsString \<Rightarrow> bool" where
  "noneOpens [] = True"
| "noneOpens (c # cs) = (opener (c # cs) = None \<and> noneOpens cs)"

lemma opener_nonempty: "opener s = Some d \<Longrightarrow> d \<noteq> []"
  by (auto simp: opener_def markers_def find_Some_iff nth_Cons' split: if_splits)

function strip_matched :: "jsString \<Rightarrow> jsString" where
  "strip_matched s =
     (if s = [] then []
      else case opener s of
        None \<Rightarrow> hd s # strip_matched (tl s)
      | Some d \<Rightarrow>
          (let rest = drop (length d) s;
               k = the (indexOf_from d rest 0)
           in take k rest @ strip_matched (drop (k + length d) rest)))"
  by pat_completeness auto
termination
proof (relation "measure length")
  show "wf (measure length)" by simp
qed (auto dest!: opener_nonempty simp: neq_Nil_conv)

text \<open>The characters the markers are made of.\<close>

definition marker_chars :: "codeUnit set" where
  "marker_chars = {cu (CHR ''*''), cu (CHR ''_''), cu (CHR ''~''), cu (CHR 0x60)}"

text \<open>The five style flags of a run, for counting the ones that are set.\<close>

definition styleFlags :: "RichText \<Rightarrow> bool list" where
  "styleFlags r = [bold (annotations r), italic (annotations r), underline (annotations r),
     strikethrough (annotations r), code (annotations r)]"

text \<open>The annotation object a branch of the loop builds for its marker.\<close>

definition style_of :: "jsString \<Rightarrow> PartialAnnotations" where
  "style_of d =
     (if d = (js ''**'') then currentAnnotations\<lparr>p_bold := Some True\<rparr>
      else if d = (js ''_'') then currentAnnotations\<lparr>p_italic := Some True\<rparr>
      else if d = (js ''__'') then currentAnnotations\<lparr>p_underline := Some True\<rparr>
      else if d = (js ''~~'') then currentAnnotations\<lparr>p_strikethrough := Some True\<rparr>
      else currentAnnotations\<lparr>p_code := Some True\<rparr>)"

section \<open>Notions the claims about the parser and the adapter are stated with\<close>

text \<open>
  The second and the third gate of \<open>main\<close>, and the states of the parser in which an
  open list has a list type.
\<close>

definition notJson :: "MainArgs \<Rightarrow> bool" where
  "notJson args =
     (contentTypeOf args \<noteq> [] \<and> \<not> includesStr (contentTypeOf args) ''application/json'')"

definition missingMd :: "MainArgs \<Rightarrow> bool" where
  "missingMd args = (md args = None \<or> md args = Some [])"

definition wellFormed :: "ParserState \<Rightarrow> bool" where
  "wellFormed st = (isInList st \<longrightarrow> listType st \<noteq> None)"

text \<open>
  The non-empty trimmed lines of a text, the lines that fail every rule of the classifier,
  and the loop of \<open>parseMarkdown\<close> on lines that are trimmed and non-empty already.
\<close>

definition nonblank :: "jsString list \<Rightarrow> jsString list" where
  "nonblank ls = filter (\<lambda>l. l \<noteq> []) (map trim ls)"

definition nonblankLines :: "jsString \<Rightarrow> jsString list" where
  "nonblankLines markdown = nonblank (split_nl markdown)"

definition isPlain :: "jsString \<Rightarrow> bool" where
  "isPlain line =
     (\<not> startsWith line (js ''# '') \<and> \<not> startsWith line (js ''## '') \<and> \<not> startsWith line (js ''### '')
      \<and> \<not> startsWith line (js ''* '') \<and> \<not> startsWith line (js ''- '')
      \<and> numberedPrefix line = None
      \<and> \<not> startsWith line [cu (CHR 0x60)]
      \<and> \<not> startsWith line (js ''> '')
      \<and> \<not> imageGuard line \<and> \<not> linkGuard line)"

fun parseTrimmed :: "ParserState \<Rightarrow> jsString list \<Rightarrow> exn + ParserState" where
  "parseTrimmed st [] = Inr st"
| "parseTrimmed st (line # ls) =
     (case parseLine st line of Inl e \<Rightarrow> Inl e | Inr st' \<Rightarrow> parseTrimmed st' ls)"

text \<open>Two strings that no context of characters in front can tell apart by their lines.\<close>

definition sameLines :: "jsString \<Rightarrow> jsString \<Rightarrow> bool" where
  "sameLines s t = (\<forall>p. nonblankLines (p @ s) = nonblankLines (p @ t))"

text \<open>A bulleted list item block for an item text, and the lines the two list rules take.\<close>

definition bulletItem :: "jsString \<Rightarrow> NotionBlock" where
  "bulletItem item = createBlock ''bulleted_list_item'' (RichTextContent (parseInlineStyles item))"

definition isListLine :: "jsString \<Rightarrow> bool" where
  "isListLine line =
     (startsWith line (js ''* '') \<or> startsWith line (js ''- '') \<or> numberedPrefix line \<noteq> None)"

text \<open>
  A text without the line terminators U+000A, U+000D, U+2028 and U+2029 (the code
  units the dot of a pattern does not match); the substring inside the first parenthesis pair of a
  line (from behind the first opening parenthesis to the next closing one); and, for a
  line that starts with a bracket, the text between that bracket and the first \<open>](\<close>
  behind it, and the text from behind that \<open>](\<close> to the next closing parenthesis.
\<close>

definition noLineTerminator :: "jsString \<Rightarrow> bool" where
  "noLineTerminator line = (\<forall>c\<in>set line. \<not> isLineTerminator c)"

definition firstParenContent :: "jsString \<Rightarrow> jsString" where
  "firstParenContent line =
     takeWhile (\<lambda>c. c \<noteq> cu (CHR '')'')) (drop 1 (dropWhile (\<lambda>c. c \<noteq> cu (CHR ''('')) line))"

definition linkText :: "jsString \<Rightarrow> jsString" where
  "linkText line = take (the (indexOf_from (js '']('')  (drop 1 line) 0)) (drop 1 line)"

definition linkUrl :: "jsString \<Rightarrow> jsString" where
  "linkUrl line =
     takeWhile (\<lambda>c. c \<noteq> cu (CHR '')''))
       (drop (the (indexOf_from (js '']('')  (drop 1 line) 0) + 2) (drop 1 line))"

text \<open>
  The patterns of the image branch and of the bookmark branch, read off the line. A text
  closes cleanly when a closing parenthesis occurs in it and no line terminator stands
  before the first one. The pattern \<open>\((.*?)\)\<close> occurs in a line when an opening
  parenthesis of the line is followed by a text that closes cleanly. The pattern
  \<open>\[(.*?)\]\((.*?)\)\<close> occurs when an opening bracket of the line is followed, with no
  line terminator in between, by a \<open>](\<close> behind which the text closes cleanly.
  \<open>linkRest\<close> is what the link pattern asks of the text behind its first group.
\<close>

definition closesCleanly :: "jsString \<Rightarrow> bool" where
  "closesCleanly r =
     (cu (CHR '')'') \<in> set r \<and> noLineTerminator (takeWhile (\<lambda>c. c \<noteq> cu (CHR '')'')) r))"

fun parenPatternOccurs :: "jsString \<Rightarrow> bool" where
  "parenPatternOccurs [] = False"
| "parenPatternOccurs (c # r) = ((c = cu (CHR ''('') \<and> closesCleanly r) \<or> parenPatternOccurs r)"

definition linkTail :: "jsString \<Rightarrow> bool" where
  "linkTail t = (startsWith t (js '']('') \<and> closesCleanly (drop 2 t))"

fun linkFrom :: "jsString \<Rightarrow> bool" where
  "linkFrom [] = False"
| "linkFrom (c # r) = (linkTail (c # r) \<or> (\<not> isLineTerminator c \<and> linkFrom r))"

fun linkPatternOccurs :: "jsString \<Rightarrow> bool" where
  "linkPatternOccurs [] = False"
| "linkPatternOccurs (c # r) = ((c = cu (CHR ''['') \<and> linkFrom r) \<or> linkPatternOccurs r)"

definition linkRest :: "jsString \<Rightarrow> (jsString \<times> unit) option" where
  "linkRest r =
     (if linkTail r then Some (takeWhile (\<lambda>c. c \<noteq> cu (CHR '')'')) (drop 2 r), ()) else None)"

section \<open>Facts about the string operations\<close>

declare strip_matched.simps [simp del]
declare pis_loop.simps [simp del]

lemma unat_cu: "unat (cu c) = of_char c"
proof -
  have lt: "(of_char c :: nat) < 256"
    using of_char_mod_256 [of c, where ?'a = nat] by (metis mod_less_divisor zero_less_numeral)
  have "cu c = of_nat (of_char c)" by (simp add: cu_def of_nat_of_char)
  then have "unat (cu c) = take_bit 16 (of_char c :: nat)" by (simp add: unsigned_of_nat)
  also have "\<dots> = of_char c"
  proof (rule take_bit_nat_eq_self)
    show "(of_char c :: nat) < 2 ^ 16" by (rule order_less_trans [OF lt]) simp
  qed
  finally show ?thesis .
qed

lemma cu_eq_iff [simp]: "cu c = cu d \<longleftrightarrow> c = d"
proof
  assume "cu c = cu d"
  then have "unat (cu c) = unat (cu d)" by simp
  then show "c = d" by (simp add: unat_cu)
qed simp

lemma cu_small: "unat (cu c) < 256"
  unfolding unat_cu using of_char_mod_256 [of c, where ?'a = nat]
  by (metis mod_less_divisor zero_less_numeral)

lemma cu_not_wide: "256 \<le> unat w \<Longrightarrow> cu c \<noteq> w" "256 \<le> unat w \<Longrightarrow> w \<noteq> cu c"
  using cu_small [of c] by auto

lemma cu_not_separator [simp]: "cu c \<noteq> LS" "cu c \<noteq> PS" "LS \<noteq> cu c" "PS \<noteq> cu c"
  by (rule cu_not_wide, simp add: LS_def PS_def)+

lemma LF_cu: "LF = cu (CHR 0x0A)" and CR_cu: "CR = cu (CHR 0x0D)"
  by (simp_all add: LF_def CR_def cu_def)

lemma indexOf_from_shift:
  "indexOf_from pat s k = map_option (\<lambda>e. e + k) (indexOf_from pat s 0)"
proof (induction s arbitrary: k)
  case Nil
  show ?case by simp
next
  case (Cons c cs)
  show ?case
    using Cons.IH [of "Suc k"] Cons.IH [of "Suc 0"]
    by (simp add: option.map_comp comp_def)
qed

lemma indexOf_from_starts:
  "indexOf_from pat s k = Some e \<Longrightarrow> startsWith (drop (e - k) s) pat"
proof (induction s arbitrary: k)
  case Nil
  then show ?case by (simp add: startsWith_def split: if_splits)
next
  case (Cons c cs)
  show ?case
  proof (cases "startsWith (c # cs) pat")
    case True
    with Cons.prems show ?thesis by simp
  next
    case False
    with Cons.prems have *: "indexOf_from pat cs (Suc k) = Some e" by simp
    from indexOf_from_bounds [OF *] have "Suc k \<le> e" by simp
    then have "e - k = Suc (e - Suc k)" by simp
    with Cons.IH [OF *] show ?thesis by simp
  qed
qed

lemma indexOf_drop:
  assumes "i \<le> length s"
  shows "indexOf s pat i = map_option (\<lambda>e. e + i) (indexOf_from pat (drop i s) 0)"
  using assms indexOf_from_shift [of pat "drop i s" i]
  by (simp add: indexOf_def min_def)

lemma cond2:
  assumes "i < length text" and "length d = 2"
  shows "(substr text i 2 = d \<and> indexOf text d (i + 2) \<noteq> None) = opens d (drop i text)"
proof (cases "substr text i 2 = d")
  case False
  with assms show ?thesis by (simp add: opens_def startsWith_def substr_def)
next
  case True
  then have "length (take 2 (drop i text)) = 2" using assms(2) by (simp add: substr_def)
  then have le: "i + 2 \<le> length text" by simp
  have "drop (length d) (drop i text) = drop (i + 2) text"
    using assms(2) by (simp add: add.commute)
  with True assms(2) indexOf_drop [OF le, of d] show ?thesis
    by (simp add: opens_def startsWith_def substr_def)
qed

lemma cond1:
  assumes "i < length text"
  shows "(charAt text i = Some c \<and> indexOf text [c] (i + 1) \<noteq> None) = opens [c] (drop i text)"
proof -
  have s: "drop i text = text ! i # drop (Suc i) text"
    using assms by (simp add: Cons_nth_drop_Suc)
  have le: "i + 1 \<le> length text" using assms by simp
  from indexOf_drop [OF le, of "[c]"] s assms show ?thesis
    by (auto simp: opens_def startsWith_def charAt_def)
qed

lemma opens_close:
  assumes "opens d (drop i text)" and "d \<noteq> []"
  shows "indexOf text d (i + length d)
           = Some (i + length d + the (indexOf_from d (drop (i + length d) text) 0))"
    and "i + length d \<le> length text"
proof -
  from assms have "length (take (length d) (drop i text)) = length d"
    by (simp add: opens_def startsWith_def)
  then show le: "i + length d \<le> length text"
    using assms(2) by (cases d) (simp_all add: min_def split: if_splits)
  have "drop (length d) (drop i text) = drop (i + length d) text"
    by (simp add: add.commute)
  with assms have "indexOf_from d (drop (i + length d) text) 0 \<noteq> None"
    by (simp add: opens_def)
  with indexOf_drop [OF le, of d]
  show "indexOf text d (i + length d)
           = Some (i + length d + the (indexOf_from d (drop (i + length d) text) 0))"
    by (auto simp: add.commute)
qed

lemma opens_uu:
  assumes "opens (js ''__'') s"
  shows "opens (js ''_'') s"
proof -
  from assms have "take (Suc (Suc 0)) s = (js ''__'')" by (simp add: opens_def startsWith_def)
  then obtain r where "s = cu (CHR ''_'') # cu (CHR ''_'') # r"
    by (cases s; cases "tl s") (auto split: if_splits)
  then show ?thesis by (simp add: opens_def startsWith_def)
qed

section \<open>The loop of the tokenizer, branch by branch\<close>

lemma opener_cases:
  assumes "opener s = Some d"
  obtains (bold) "d = (js ''**'')" "opens (js ''**'') s"
  | (italic) "d = (js ''_'')" "\<not> opens (js ''**'') s" "opens (js ''_'') s"
  | (strike) "d = (js ''~~'')" "\<not> opens (js ''**'') s" "\<not> opens (js ''_'') s" "\<not> opens (js ''__'') s" "opens (js ''~~'') s"
  | (code) "d = [cu (CHR 0x60)]" "\<not> opens (js ''**'') s" "\<not> opens (js ''_'') s" "\<not> opens (js ''__'') s"
      "\<not> opens (js ''~~'') s" "opens [cu (CHR 0x60)] s"
  using assms opens_uu [of s] by (auto simp: opener_def markers_def split: if_splits)

lemma opener_None:
  "opener s = None \<longleftrightarrow>
     \<not> opens (js ''**'') s \<and> \<not> opens (js ''_'') s \<and> \<not> opens (js ''__'') s \<and> \<not> opens (js ''~~'') s
       \<and> \<not> opens [cu (CHR 0x60)] s"
  by (auto simp: opener_def markers_def split: if_splits)

lemma pis_loop_end: "\<not> i < length text \<Longrightarrow> pis_loop text i cur segs = pushPending cur segs"
  by (subst pis_loop.simps) simp

lemma pis_loop_plain:
  assumes "i < length text" and "opener (drop i text) = None"
  shows "pis_loop text i cur segs = pis_loop text (Suc i) (cur @ [text ! i]) segs"
proof -
  have b: "(substr text i 2 = (js ''**'') \<and> indexOf text (js ''**'') (i + 2) \<noteq> None) = opens (js ''**'') (drop i text)"
    and u: "(substr text i 2 = (js ''__'') \<and> indexOf text (js ''__'') (i + 2) \<noteq> None) = opens (js ''__'') (drop i text)"
    and t: "(substr text i 2 = (js ''~~'') \<and> indexOf text (js ''~~'') (i + 2) \<noteq> None) = opens (js ''~~'') (drop i text)"
    using cond2 [OF assms(1), of "js ''**''"] cond2 [OF assms(1), of "js ''__''"]
      cond2 [OF assms(1), of "js ''~~''"]
    by simp_all
  have it: "(charAt text i = Some (cu (CHR ''_'')) \<and> indexOf text (js ''_'') (i + 1) \<noteq> None) = opens (js ''_'') (drop i text)"
    and c: "(charAt text i = Some (cu (CHR 0x60)) \<and> indexOf text [cu (CHR 0x60)] (i + 1) \<noteq> None) = opens [cu (CHR 0x60)] (drop i text)"
    using cond1 [OF assms(1), of "cu (CHR ''_'')"] cond1 [OF assms(1), of "cu (CHR 0x60)"]
    by simp_all
  from assms(2) have no: "\<not> opens (js ''**'') (drop i text)" "\<not> opens (js ''_'') (drop i text)"
      "\<not> opens (js ''__'') (drop i text)" "\<not> opens (js ''~~'') (drop i text)"
      "\<not> opens [cu (CHR 0x60)] (drop i text)"
    by (simp_all add: opener_None)
  show ?thesis
    by (subst pis_loop.simps) (simp only: assms(1) b u t it c no if_True if_False Suc_eq_plus1)
qed

lemma pis_loop_styled:
  assumes "i < length text" and "opener (drop i text) = Some d"
  defines "k \<equiv> the (indexOf_from d (drop (i + length d) text) 0)"
  shows "pis_loop text i cur segs =
           pis_loop text (i + length d + k + length d) []
             (pushPending cur segs
                @ [createRichText (take k (drop (i + length d) text)) (style_of d)])"
proof -
  let ?s = "drop i text"
  have b: "(substr text i 2 = (js ''**'') \<and> indexOf text (js ''**'') (i + 2) \<noteq> None) = opens (js ''**'') ?s"
    and u: "(substr text i 2 = (js ''__'') \<and> indexOf text (js ''__'') (i + 2) \<noteq> None) = opens (js ''__'') ?s"
    and t: "(substr text i 2 = (js ''~~'') \<and> indexOf text (js ''~~'') (i + 2) \<noteq> None) = opens (js ''~~'') ?s"
    using cond2 [OF assms(1), of "js ''**''"] cond2 [OF assms(1), of "js ''__''"]
      cond2 [OF assms(1), of "js ''~~''"]
    by simp_all
  have it: "(charAt text i = Some (cu (CHR ''_'')) \<and> indexOf text (js ''_'') (i + 1) \<noteq> None) = opens (js ''_'') ?s"
    and c: "(charAt text i = Some (cu (CHR 0x60)) \<and> indexOf text [cu (CHR 0x60)] (i + 1) \<noteq> None) = opens [cu (CHR 0x60)] ?s"
    using cond1 [OF assms(1), of "cu (CHR ''_'')"] cond1 [OF assms(1), of "cu (CHR 0x60)"]
    by simp_all
  have dne: "d \<noteq> []" using assms(2) by (rule opener_nonempty)
  have sl: "slice text a (a + k) = take k (drop a text)" for a
    by (simp add: slice_def)
  from assms(2) show ?thesis
  proof (cases rule: opener_cases)
    case bold
    from opens_close(1) [OF bold(2)] have e: "the (indexOf text (js ''**'') (i + 2)) = i + 2 + k"
      by (simp add: k_def bold(1))
    show ?thesis
      apply (subst pis_loop.simps)
      apply (simp only: assms(1) b bold if_True Let_def e sl)
      apply (simp add: style_of_def)
      done
  next
    case italic
    from opens_close(1) [OF italic(3)] have e: "the (indexOf text (js ''_'') (i + 1)) = i + 1 + k"
      by (simp add: k_def italic(1))
    show ?thesis
      apply (subst pis_loop.simps)
      apply (simp only: assms(1) b it italic if_True if_False Let_def e sl)
      apply (simp add: style_of_def)
      done
  next
    case strike
    from opens_close(1) [OF strike(5)] have e: "the (indexOf text (js ''~~'') (i + 2)) = i + 2 + k"
      by (simp add: k_def strike(1))
    show ?thesis
      apply (subst pis_loop.simps)
      apply (simp only: assms(1) b it u t strike if_True if_False Let_def e sl)
      apply (simp add: style_of_def)
      done
  next
    case code
    from opens_close(1) [OF code(6)] have e: "the (indexOf text [cu (CHR 0x60)] (i + 1)) = i + 1 + k"
      by (simp add: k_def code(1))
    show ?thesis
      apply (subst pis_loop.simps)
      apply (simp only: assms(1) b it u t c code if_True if_False Let_def e sl)
      apply (simp add: style_of_def)
      done
  qed
qed

lemma pis_loop_rule:
  assumes stop: "\<And>i cur segs. \<not> i < length txt \<Longrightarrow> Q i cur segs"
    and plain: "\<And>i cur segs. i < length txt \<Longrightarrow> opener (drop i txt) = None
        \<Longrightarrow> Q (Suc i) (cur @ [txt ! i]) segs \<Longrightarrow> Q i cur segs"
    and styled: "\<And>i cur segs d k. i < length txt \<Longrightarrow> opener (drop i txt) = Some d
        \<Longrightarrow> k = the (indexOf_from d (drop (i + length d) txt) 0)
        \<Longrightarrow> Q (i + length d + k + length d) []
              (pushPending cur segs
                 @ [createRichText (take k (drop (i + length d) txt)) (style_of d)])
        \<Longrightarrow> Q i cur segs"
  shows "Q i cur segs"
proof (induction "length txt - i" arbitrary: i cur segs rule: less_induct)
  case (less i cur segs)
  show ?case
  proof (cases "i < length txt")
    case False
    then show ?thesis by (rule stop)
  next
    case True
    show ?thesis
    proof (cases "opener (drop i txt)")
      case None
      have "Q (Suc i) (cur @ [txt ! i]) segs"
        using True by (intro less) simp
      with True None show ?thesis by (rule plain)
    next
      case (Some d)
      define k where "k = the (indexOf_from d (drop (i + length d) txt) 0)"
      have "d \<noteq> []" using Some by (rule opener_nonempty)
      then have "length txt - (i + length d + k + length d) < length txt - i"
        using True by (cases d) simp_all
      then have "Q (i + length d + k + length d) []
              (pushPending cur segs
                 @ [createRichText (take k (drop (i + length d) txt)) (style_of d)])"
        by (rule less)
      with True Some k_def show ?thesis by (rule styled)
    qed
  qed
qed

lemma content_pushPending:
  "concat (map content (pushPending cur segs)) = concat (map content segs) @ cur"
  by (simp add: pushPending_def createRichText_def)

lemma strip_matched_Nil: "strip_matched [] = []"
  by (subst strip_matched.simps) simp

lemma strip_matched_plain:
  "opener (c # cs) = None \<Longrightarrow> strip_matched (c # cs) = c # strip_matched cs"
  by (subst strip_matched.simps) simp

lemma strip_matched_styled:
  "s \<noteq> [] \<Longrightarrow> opener s = Some d \<Longrightarrow>
     strip_matched s =
       take (the (indexOf_from d (drop (length d) s) 0)) (drop (length d) s)
         @ strip_matched (drop (the (indexOf_from d (drop (length d) s) 0) + length d)
              (drop (length d) s))"
  by (subst strip_matched.simps) (simp add: Let_def)

lemma pis_loop_content:
  "concat (map content (pis_loop text i cur segs))
     = concat (map content segs) @ cur @ strip_matched (drop i text)"
proof (induction i cur segs rule: pis_loop_rule [of "text"])
  case (1 i cur segs)
  then show ?case
    by (simp add: pis_loop_end content_pushPending strip_matched_Nil)
next
  case (2 i cur segs)
  have s: "drop i text = text ! i # drop (Suc i) text"
    using 2(1) by (simp add: Cons_nth_drop_Suc)
  from 2(2) have "strip_matched (drop i text) = text ! i # strip_matched (drop (Suc i) text)"
    unfolding s by (rule strip_matched_plain)
  with 2 show ?case by (simp add: pis_loop_plain)
next
  case (3 i cur segs d k)
  have ne: "drop i text \<noteq> []" using 3(1) by simp
  have "strip_matched (drop i text)
          = take k (drop (i + length d) text)
              @ strip_matched (drop (i + length d + k + length d) text)"
    using strip_matched_styled [OF ne 3(2)] 3(3) by (simp add: add.commute add.left_commute)
  moreover have "pis_loop text i cur segs
      = pis_loop text (i + length d + k + length d) []
             (pushPending cur segs
                @ [createRichText (take k (drop (i + length d) text)) (style_of d)])"
    unfolding 3(3) using 3(1,2) by (rule pis_loop_styled)
  ultimately show ?case
    using 3(4) by (simp add: content_pushPending createRichText_def)
qed

lemma opener_decomp:
  assumes "opener s = Some d"
  defines "rest \<equiv> drop (length d) s"
  defines "k \<equiv> the (indexOf_from d rest 0)"
  shows "s = d @ take k rest @ d @ drop (k + length d) rest"
proof -
  have op: "opens d s"
    using assms(1) by (cases rule: opener_cases) simp_all
  then have 1: "s = d @ rest"
    unfolding rest_def opens_def startsWith_def by (metis append_take_drop_id)
  from op obtain e where e: "indexOf_from d rest 0 = Some e"
    unfolding rest_def opens_def by auto
  then have "k = e" by (simp add: k_def)
  from indexOf_from_starts [OF e] have "take (length d) (drop k rest) = d"
    by (simp add: startsWith_def \<open>k = e\<close>)
  then have "drop k rest = d @ drop (length d) (drop k rest)"
    by (metis append_take_drop_id)
  then have "rest = take k rest @ d @ drop (k + length d) rest"
    by (metis append_take_drop_id drop_drop add.commute)
  with 1 show ?thesis by metis
qed

lemma opener_marker_chars: "opener s = Some d \<Longrightarrow> set d \<subseteq> marker_chars"
  by (erule opener_cases) (simp_all add: marker_chars_def)

lemma strip_matched_props:
  "subseq (strip_matched s) s
   \<and> filter (\<lambda>c. c \<notin> marker_chars) (strip_matched s) = filter (\<lambda>c. c \<notin> marker_chars) s"
proof (induction s rule: strip_matched.induct)
  case (1 s)
  show ?case
  proof (cases "s = []")
    case True
    then show ?thesis by (simp add: strip_matched_Nil)
  next
    case False
    then obtain c cs where s: "s = c # cs" by (cases s) auto
    show ?thesis
    proof (cases "opener s")
      case None
      with 1(1) [OF False None] s show ?thesis
        by (simp add: strip_matched_plain)
    next
      case (Some d)
      define rest where "rest = drop (length d) s"
      define k where "k = the (indexOf_from d rest 0)"
      have IH: "subseq (strip_matched (drop (k + length d) rest)) (drop (k + length d) rest)
         \<and> filter (\<lambda>c. c \<notin> marker_chars) (strip_matched (drop (k + length d) rest))
              = filter (\<lambda>c. c \<notin> marker_chars) (drop (k + length d) rest)"
        using 1(2) [OF False Some rest_def k_def] .
      have dec: "s = d @ take k rest @ d @ drop (k + length d) rest"
        using opener_decomp [OF Some] by (simp add: rest_def k_def)
      have st: "strip_matched s = take k rest @ strip_matched (drop (k + length d) rest)"
        using strip_matched_styled [OF False Some] by (simp add: rest_def k_def)
      have fd: "filter (\<lambda>c. c \<notin> marker_chars) d = []"
        using opener_marker_chars [OF Some] by (auto simp: filter_empty_conv)
      have "subseq (take k rest @ strip_matched (drop (k + length d) rest))
              (d @ take k rest @ d @ drop (k + length d) rest)"
        using IH by (intro list_emb_append2 list_emb_append_mono) simp_all
      moreover have "filter (\<lambda>c. c \<notin> marker_chars) (strip_matched s)
          = filter (\<lambda>c. c \<notin> marker_chars) (d @ take k rest @ d @ drop (k + length d) rest)"
        using IH fd by (simp add: st)
      ultimately show ?thesis using dec st by metis
    qed
  qed
qed

lemma strip_matched_unmatched: "noneOpens s \<Longrightarrow> strip_matched s = s"
  by (induction s) (simp_all add: strip_matched_Nil strip_matched_plain)

lemma pis_loop_all:
  assumes plain: "\<And>c. P (createRichText c currentAnnotations)"
    and styled: "\<And>c d. d \<in> {(js ''**''), (js ''_''), (js ''~~''), [cu (CHR 0x60)]} \<Longrightarrow> P (createRichText c (style_of d))"
  shows "(\<forall>r\<in>set segs. P r) \<longrightarrow> (\<forall>r\<in>set (pis_loop line i cur segs). P r)"
proof (induction i cur segs rule: pis_loop_rule [of line])
  case (1 i cur segs)
  then have eq: "pis_loop line i cur segs = pushPending cur segs"
    by (rule pis_loop_end)
  show ?case unfolding eq by (simp add: pushPending_def plain)
next
  case (2 i cur segs)
  have eq: "pis_loop line i cur segs = pis_loop line (Suc i) (cur @ [line ! i]) segs"
    using 2(1,2) by (rule pis_loop_plain)
  show ?case unfolding eq by (rule 2(3))
next
  case (3 i cur segs d k)
  let ?run = "createRichText (take k (drop (i + length d) line)) (style_of d)"
  from 3(2) have "d \<in> {(js ''**''), (js ''_''), (js ''~~''), [cu (CHR 0x60)]}"
    by (cases rule: opener_cases) simp_all
  then have run: "P ?run" by (rule styled)
  have eq: "pis_loop line i cur segs
      = pis_loop line (i + length d + k + length d) [] (pushPending cur segs @ [?run])"
    unfolding 3(3) using 3(1,2) by (rule pis_loop_styled)
  show ?case
  proof
    assume "\<forall>r\<in>set segs. P r"
    then have "\<forall>r\<in>set (pushPending cur segs). P r"
      by (simp add: pushPending_def plain)
    with run have "\<forall>r\<in>set (pushPending cur segs @ [?run]). P r" by simp
    with 3(4) have "\<forall>r\<in>set (pis_loop line (i + length d + k + length d) []
        (pushPending cur segs @ [?run])). P r"
      by (rule mp)
    then show "\<forall>r\<in>set (pis_loop line i cur segs). P r" by (simp only: eq)
  qed
qed

lemma pis_loop_nonempty:
  "cur \<noteq> [] \<or> segs \<noteq> [] \<or> i < length line \<longrightarrow> pis_loop line i cur segs \<noteq> []"
proof (induction i cur segs rule: pis_loop_rule [of line])
  case (1 i cur segs)
  then have eq: "pis_loop line i cur segs = pushPending cur segs"
    by (rule pis_loop_end)
  show ?case unfolding eq using 1 by (simp add: pushPending_def)
next
  case (2 i cur segs)
  have eq: "pis_loop line i cur segs = pis_loop line (Suc i) (cur @ [line ! i]) segs"
    using 2(1,2) by (rule pis_loop_plain)
  from 2(3) show ?case unfolding eq by simp
next
  case (3 i cur segs d k)
  have eq: "pis_loop line i cur segs
      = pis_loop line (i + length d + k + length d) []
             (pushPending cur segs
                @ [createRichText (take k (drop (i + length d) line)) (style_of d)])"
    unfolding 3(3) using 3(1,2) by (rule pis_loop_styled)
  from 3(4) show ?case unfolding eq by simp
qed

text \<open>The tokenizer on two concrete lines, computed from the code equations.\<close>

lemma pis_example: "parseInlineStyles (js ''x **a**'') = 
   [createRichText (js ''x '') currentAnnotations,
    createRichText (js ''a'') (currentAnnotations\<lparr>p_bold := Some True\<rparr>)]"
  by code_simp

lemma pis_example_u: "parseInlineStyles (js ''__a__'') =
   [createRichText [] (currentAnnotations\<lparr>p_italic := Some True\<rparr>),
    createRichText (js ''a'') currentAnnotations,
    createRichText [] (currentAnnotations\<lparr>p_italic := Some True\<rparr>)]"
  by code_simp

section \<open>Claims about the inline tokenizer\<close>

text \<open>
  C1. For every line, the texts of the runs that \<open>parseInlineStyles\<close> returns,
  concatenated in order, are the line with exactly the matched delimiters removed
  (\<open>strip_matched\<close>). That text is a subsequence of the line, it keeps every character
  that is not a marker character in place, and a line in which no marker has a matching
  closer (\<open>noneOpens\<close>) comes back unchanged.
\<close>

theorem C1_concat_of_runs:
  "concat (map content (parseInlineStyles line)) = strip_matched line
   \<and> subseq (concat (map content (parseInlineStyles line))) line
   \<and> filter (\<lambda>c. c \<notin> marker_chars) (concat (map content (parseInlineStyles line)))
       = filter (\<lambda>c. c \<notin> marker_chars) line
   \<and> (noneOpens line \<longrightarrow> concat (map content (parseInlineStyles line)) = line)"
proof -
  have eq: "concat (map content (parseInlineStyles line)) = strip_matched line"
    using pis_loop_content [of line 0 "[]" "[]"] by (simp add: parseInlineStyles_def)
  show ?thesis
    unfolding eq using strip_matched_props [of line] strip_matched_unmatched [of line] by blast
qed

theorem C1_concat_of_runs_witness:
  "noneOpens (js ''a*b_'') \<and> concat (map content (parseInlineStyles (js ''a*b_''))) = (js ''a*b_'')"
proof -
  have h: "noneOpens (js ''a*b_'')"
    by (simp add: opener_def markers_def opens_def startsWith_def)
  with C1_concat_of_runs [of "(js ''a*b_'')"] show ?thesis by blast
qed

text \<open>
  C2. For every line, every run that \<open>parseInlineStyles\<close> returns has at most one of
  the five style flags bold, italic, underline, strikethrough and code set, and its
  color is the string \<open>default\<close>.
\<close>

theorem C2_one_flag_default_color:
  "\<forall>r\<in>set (parseInlineStyles line).
     length (filter id (styleFlags r)) \<le> 1 \<and> color (annotations r) = ''default''"
proof -
  let ?P = "\<lambda>r. length (filter id (styleFlags r)) \<le> 1 \<and> color (annotations r) = ''default''"
  have "(\<forall>r\<in>set []. ?P r) \<longrightarrow> (\<forall>r\<in>set (pis_loop line 0 [] []). ?P r)"
  proof (rule pis_loop_all [where P = "?P"])
    fix c show "?P (createRichText c currentAnnotations)"
      by (simp add: createRichText_def currentAnnotations_def styleFlags_def)
  next
    fix c d assume "d \<in> {(js ''**''), (js ''_''), (js ''~~''), [cu (CHR 0x60)]}"
    then show "?P (createRichText c (style_of d))"
      by (auto simp: createRichText_def currentAnnotations_def styleFlags_def style_of_def)
  qed
  then show ?thesis by (simp add: parseInlineStyles_def)
qed

theorem C2_one_flag_default_color_witness:
  "createRichText (js ''a'') (currentAnnotations\<lparr>p_bold := Some True\<rparr>) \<in> set (parseInlineStyles (js ''x **a**''))
   \<and> length (filter id (styleFlags (createRichText (js ''a'') (currentAnnotations\<lparr>p_bold := Some True\<rparr>)))) \<le> 1
   \<and> color (annotations (createRichText (js ''a'') (currentAnnotations\<lparr>p_bold := Some True\<rparr>))) = ''default''"
proof -
  have h: "createRichText (js ''a'') (currentAnnotations\<lparr>p_bold := Some True\<rparr>)
             \<in> set (parseInlineStyles (js ''x **a**''))"
    unfolding pis_example by simp
  with C2_one_flag_default_color [of "(js ''x **a**'')"] show ?thesis by blast
qed

text \<open>
  C8, as the code has it. For every non-empty line \<open>parseInlineStyles\<close> returns a
  non-empty sequence of runs; for the empty line it returns the empty sequence (the
  pending buffer is pushed only when it is non-empty), not a sequence of one run with
  empty text.
\<close>

theorem C8_nonempty_runs:
  "(line \<noteq> [] \<longrightarrow> parseInlineStyles line \<noteq> []) \<and> parseInlineStyles [] = []"
  using pis_loop_nonempty [of "[]" "[]" 0 line]
  by (simp add: parseInlineStyles_def pis_loop_end pushPending_def)

theorem C8_nonempty_runs_witness:
  "(js ''a'') \<noteq> [] \<and> parseInlineStyles (js ''a'') \<noteq> []"
  using C8_nonempty_runs [of "(js ''a'')"] by simp

text \<open>
  C8 as stated fails on the empty line: the result does not have exactly one run.
\<close>

theorem C8_empty_line_counterexample:
  "length (parseInlineStyles []) \<noteq> 1"
  by (simp add: parseInlineStyles_def pis_loop_end pushPending_def)

text \<open>
  C9. For every line, no run that \<open>parseInlineStyles\<close> returns has underline set:
  whenever the cursor stands on \<open>__\<close> with a later \<open>__\<close>, the condition of the italic
  branch, which the loop tests first, holds as well.
\<close>

theorem C9_underline_never_set:
  "(\<forall>r\<in>set (parseInlineStyles line). \<not> underline (annotations r))
   \<and> (\<forall>i. i < length line \<and> substr line i 2 = (js ''__'') \<and> indexOf line (js ''__'') (i + 2) \<noteq> None
        \<longrightarrow> charAt line i = Some (cu (CHR ''_'')) \<and> indexOf line (js ''_'') (i + 1) \<noteq> None)"
proof
  let ?P = "\<lambda>r::RichText. \<not> underline (annotations r)"
  have "(\<forall>r\<in>set []. ?P r) \<longrightarrow> (\<forall>r\<in>set (pis_loop line 0 [] []). ?P r)"
  proof (rule pis_loop_all [where P = "?P"])
    fix c show "?P (createRichText c currentAnnotations)"
      by (simp add: createRichText_def currentAnnotations_def)
  next
    fix c d assume "d \<in> {(js ''**''), (js ''_''), (js ''~~''), [cu (CHR 0x60)]}"
    then show "?P (createRichText c (style_of d))"
      by (auto simp: createRichText_def currentAnnotations_def style_of_def)
  qed
  then show "\<forall>r\<in>set (parseInlineStyles line). \<not> underline (annotations r)"
    by (simp add: parseInlineStyles_def)
next
  show "\<forall>i. i < length line \<and> substr line i 2 = (js ''__'') \<and> indexOf line (js ''__'') (i + 2) \<noteq> None
        \<longrightarrow> charAt line i = Some (cu (CHR ''_'')) \<and> indexOf line (js ''_'') (i + 1) \<noteq> None"
  proof (intro allI impI)
    fix i
    assume a: "i < length line \<and> substr line i 2 = (js ''__'') \<and> indexOf line (js ''__'') (i + 2) \<noteq> None"
    then have "opens (js ''__'') (drop i line)"
      using cond2 [of i line "(js ''__'')"] by simp
    then have "opens (js ''_'') (drop i line)" by (rule opens_uu)
    then show "charAt line i = Some (cu (CHR ''_'')) \<and> indexOf line (js ''_'') (i + 1) \<noteq> None"
      using cond1 [of i line "cu (CHR ''_'')"] a by simp
  qed
qed

theorem C9_underline_never_set_witness:
  "createRichText (js ''a'') currentAnnotations \<in> set (parseInlineStyles (js ''__a__''))
   \<and> \<not> underline (annotations (createRichText (js ''a'') currentAnnotations))
   \<and> (0 < length (js ''__a__'') \<and> substr (js ''__a__'') 0 2 = (js ''__'') \<and> indexOf (js ''__a__'') (js ''__'') (0 + 2) \<noteq> None)
   \<and> charAt (js ''__a__'') 0 = Some (cu (CHR ''_'')) \<and> indexOf (js ''__a__'') (js ''_'') (0 + 1) \<noteq> None"
proof -
  have h1: "createRichText (js ''a'') currentAnnotations \<in> set (parseInlineStyles (js ''__a__''))"
    unfolding pis_example_u by simp
  have h2: "0 < length (js ''__a__'') \<and> substr (js ''__a__'') 0 2 = (js ''__'') \<and> indexOf (js ''__a__'') (js ''__'') (0 + 2) \<noteq> None"
    by (simp add: substr_def indexOf_def startsWith_def)
  from C9_underline_never_set [of "(js ''__a__'')"] h1 h2 show ?thesis by blast
qed

section \<open>The parser never throws\<close>

lemma convertList_Some: "\<exists>bs. convertList (Some t) items = Inr bs"
  by (cases t) (simp_all add: convertList_def)

lemma flushList_ok:
  assumes "wellFormed st"
  shows "\<exists>st'. flushList st = Inr st' \<and> wellFormed st' \<and> \<not> isInList st'"
proof (cases "isInList st")
  case False
  with assms show ?thesis by (simp add: flushList_def)
next
  case True
  with assms obtain t where t: "listType st = Some t" by (auto simp: wellFormed_def)
  from convertList_Some obtain bs where "convertList (Some t) (currentList st) = Inr bs" by blast
  with True t show ?thesis by (simp add: flushList_def wellFormed_def)
qed

lemma enterList_ok:
  assumes "wellFormed st"
  shows "\<exists>st'. enterList t st = Inr st' \<and> wellFormed st' \<and> isInList st'"
proof (cases "isInList st")
  case False
  then show ?thesis by (simp add: enterList_def wellFormed_def)
next
  case True
  with assms obtain u where u: "listType st = Some u" by (auto simp: wellFormed_def)
  from convertList_Some obtain bs where "convertList (Some u) (currentList st) = Inr bs" by blast
  with True u show ?thesis by (simp add: enterList_def wellFormed_def)
qed

lemma parseLine_ok:
  assumes "wellFormed st"
  shows "\<exists>st'. parseLine st line = Inr st' \<and> wellFormed st'"
proof -
  from flushList_ok [OF assms] obtain s1 where
    f: "flushList st = Inr s1" and w1: "wellFormed s1" "\<not> isInList s1" by blast
  from enterList_ok [OF assms] obtain s2 where
    b: "enterList bulletList st = Inr s2" and w2: "wellFormed s2" by blast
  from enterList_ok [OF assms] obtain s3 where
    n: "enterList numberList st = Inr s3" and w3: "wellFormed s3" by blast
  have p: "wellFormed (pushBlock x s1)" for x
    using w1 by (simp add: wellFormed_def pushBlock_def)
  have i2: "wellFormed (pushItem x s2)" and i3: "wellFormed (pushItem x s3)" for x
    using w2 w3 by (simp_all add: wellFormed_def pushItem_def)
  show ?thesis
    unfolding parseLine_def f b n
    by (simp add: p i2 i3 w1 split: option.split prod.split)
qed

lemma parseLines_ok:
  "wellFormed st \<Longrightarrow> \<exists>st'. parseLines st ls = Inr st' \<and> wellFormed st'"
proof (induction ls arbitrary: st)
  case Nil
  then show ?case by simp
next
  case (Cons l ls)
  from parseLine_ok [OF Cons.prems] obtain s1 where
    1: "parseLine st (trim l) = Inr s1" and w: "wellFormed s1" by blast
  from Cons.IH [OF w] Cons.IH [OF Cons.prems] 1 show ?case by (simp add: Let_def)
qed

lemma finish_ok: "wellFormed st \<Longrightarrow> \<exists>bs. finish st = Inr bs"
  using convertList_Some [of _ "currentList st"]
  by (auto simp: finish_def wellFormed_def) (metis map_sum.simps(2))

lemma parseMarkdown_returns: "\<exists>bs. parseMarkdown markdown = Inr bs"
proof -
  have "wellFormed initialState" by (simp add: wellFormed_def initialState_def)
  from parseLines_ok [OF this] obtain st where
    "parseLines initialState (split_nl (cleanMarkdown markdown)) = Inr st" "wellFormed st"
    by blast
  with finish_ok show ?thesis by (simp add: parseMarkdown_def)
qed

section \<open>Cleaning keeps the non-empty trimmed lines\<close>

lemma nonblank_append: "nonblank (xs @ ys) = nonblank xs @ nonblank ys"
  by (simp add: nonblank_def)

lemma parseLines_nonblank: "parseLines st ls = parseTrimmed st (nonblank ls)"
  by (induction ls arbitrary: st) (auto simp: nonblank_def Let_def split: sum.splits)

lemma split_nl_nonempty: "split_nl s \<noteq> []"
  by (induction s) (auto split: list.splits)

lemma split_nl_Cons:
  "c \<noteq> LF \<Longrightarrow> split_nl (c # s) = (c # hd (split_nl s)) # tl (split_nl s)"
  using split_nl_nonempty [of s] by (cases "split_nl s") simp_all

lemma split_nl_append: "split_nl (a @ LF # b) = split_nl a @ split_nl b"
proof (induction a)
  case Nil
  show ?case by simp
next
  case (Cons c a)
  show ?case
  proof (cases "c = LF")
    case True
    with Cons show ?thesis by simp
  next
    case False
    obtain l ls where l: "split_nl a = l # ls"
      using split_nl_nonempty [of a] by (cases "split_nl a") auto
    with False Cons show ?thesis by simp
  qed
qed

lemma split_nl_snoc:
  "c \<noteq> LF \<Longrightarrow> split_nl (s @ [c]) = butlast (split_nl s) @ [last (split_nl s) @ [c]]"
proof (induction s)
  case Nil
  then show ?case by simp
next
  case (Cons d s)
  obtain l ls where l: "split_nl s = l # ls"
    using split_nl_nonempty [of s] by (cases "split_nl s") auto
  obtain l' ls' where l': "split_nl (s @ [c]) = l' # ls'"
    using split_nl_nonempty [of "s @ [c]"] by (cases "split_nl (s @ [c])") auto
  from Cons l l' show ?case
    by (cases "d = LF"; cases ls) (auto split: if_splits)
qed

lemma split_nl_set: "l \<in> set (split_nl s) \<Longrightarrow> set l \<subseteq> set s"
proof (induction s arbitrary: l)
  case Nil
  then show ?case by simp
next
  case (Cons c s)
  obtain k ks where k: "split_nl s = k # ks"
    using split_nl_nonempty [of s] by (cases "split_nl s") auto
  from Cons.prems k Cons.IH [of k] Cons.IH [of l] show ?case
    by (cases "c = LF") (auto split: if_splits)
qed

lemma trim_blank: "\<forall>c\<in>set l. isSpace c \<Longrightarrow> trim l = []"
proof -
  assume "\<forall>c\<in>set l. isSpace c"
  then have d: "dropWhile isSpace l = []" by (induction l) simp_all
  show ?thesis unfolding trim_def d by simp
qed

lemma trim_Cons_space: "isSpace c \<Longrightarrow> trim (c # l) = trim l"
  by (simp add: trim_def)

lemma trim_snoc_space:
  assumes "isSpace c"
  shows "trim (l @ [c]) = trim l"
proof (cases "\<forall>x\<in>set l. isSpace x")
  case True
  with assms have "\<forall>x\<in>set (l @ [c]). isSpace x" by simp
  then have "trim (l @ [c]) = []" by (rule trim_blank)
  with True show ?thesis by (simp add: trim_blank)
next
  case False
  then obtain x where "x \<in> set l" "\<not> isSpace x" by blast
  then have "dropWhile isSpace (l @ [c]) = dropWhile isSpace l @ [c]"
    by (rule dropWhile_append1)
  with assms show ?thesis by (simp add: trim_def)
qed

lemma nonblank_blank: "\<forall>c\<in>set w. isSpace c \<Longrightarrow> nonblankLines w = []"
proof -
  assume w: "\<forall>c\<in>set w. isSpace c"
  have "trim l = []" if "l \<in> set (split_nl w)" for l
    using split_nl_set [OF that] w by (intro trim_blank) blast
  then show ?thesis by (simp add: nonblankLines_def nonblank_def filter_empty_conv)
qed

lemma isSpace_LF: "isSpace LF"
  by (simp add: isSpace_def LF_def)

lemma nonblankLines_append: "nonblankLines (a @ LF # b) = nonblankLines a @ nonblankLines b"
  by (simp add: nonblankLines_def split_nl_append nonblank_append)

lemma nonblankLines_Cons_space:
  assumes "isSpace c"
  shows "nonblankLines (c # s) = nonblankLines s"
proof (cases "c = LF")
  case True
  then show ?thesis by (simp add: nonblankLines_def nonblank_def trim_def)
next
  case False
  obtain l ls where l: "split_nl s = l # ls"
    using split_nl_nonempty [of s] by (cases "split_nl s") auto
  with False assms show ?thesis
    by (simp add: nonblankLines_def nonblank_def trim_Cons_space)
qed

lemma nonblankLines_snoc_space:
  assumes "isSpace c"
  shows "nonblankLines (s @ [c]) = nonblankLines s"
proof (cases "c = LF")
  case True
  have "nonblankLines (s @ LF # []) = nonblankLines s @ nonblankLines []"
    by (rule nonblankLines_append)
  with True show ?thesis by (simp add: nonblankLines_def nonblank_def trim_def)
next
  case False
  have ne: "split_nl s \<noteq> []" by (rule split_nl_nonempty)
  have "nonblank (butlast (split_nl s) @ [last (split_nl s) @ [c]])
          = nonblank (butlast (split_nl s) @ [last (split_nl s)])"
    using assms by (simp add: nonblank_def trim_snoc_space)
  with ne False show ?thesis
    by (simp add: nonblankLines_def split_nl_snoc)
qed

lemma sameLines_refl: "sameLines s s"
  by (simp add: sameLines_def)

lemma sameLines_trans: "sameLines s t \<Longrightarrow> sameLines t u \<Longrightarrow> sameLines s u"
  by (simp add: sameLines_def)

lemma sameLines_Cons: "sameLines s t \<Longrightarrow> sameLines (c # s) (c # t)"
proof -
  assume st: "sameLines s t"
  show ?thesis
    unfolding sameLines_def
  proof
    fix p
    from st have "nonblankLines ((p @ [c]) @ s) = nonblankLines ((p @ [c]) @ t)"
      unfolding sameLines_def by blast
    then show "nonblankLines (p @ c # s) = nonblankLines (p @ c # t)" by simp
  qed
qed

lemma sameLines_lines: "sameLines s t \<Longrightarrow> nonblankLines s = nonblankLines t"
  unfolding sameLines_def by (metis append_Nil)

lemma sameLines_crlf: "sameLines (LF # s) (CR # LF # s)"
  unfolding sameLines_def
proof
  fix p
  have "isSpace CR" by (simp add: isSpace_def CR_def)
  then have "nonblankLines (p @ [CR]) = nonblankLines p" by (rule nonblankLines_snoc_space)
  moreover have "nonblankLines ((p @ [CR]) @ LF # s) = nonblankLines (p @ [CR]) @ nonblankLines s"
    by (rule nonblankLines_append)
  moreover have "nonblankLines (p @ LF # s) = nonblankLines p @ nonblankLines s"
    by (rule nonblankLines_append)
  ultimately show "nonblankLines (p @ LF # s) = nonblankLines (p @ CR # LF # s)" by simp
qed

lemma sameLines_blank:
  assumes "\<forall>c\<in>set w. isSpace c"
  shows "sameLines (LF # s) (LF # w @ LF # s)"
  unfolding sameLines_def
proof
  fix p
  have "nonblankLines (p @ LF # (w @ LF # s)) = nonblankLines p @ nonblankLines (w @ LF # s)"
    by (rule nonblankLines_append)
  also have "nonblankLines (w @ LF # s) = nonblankLines w @ nonblankLines s"
    by (rule nonblankLines_append)
  also have "nonblankLines w = []" using assms by (rule nonblank_blank)
  finally show "nonblankLines (p @ LF # s) = nonblankLines (p @ LF # w @ LF # s)"
    by (simp add: nonblankLines_append)
qed

lemma replace_crlf_sameLines: "sameLines (replace_crlf s) s"
proof (induction s rule: replace_crlf.induct)
  case (1 a b cs)
  show ?case
  proof (cases "a = CR \<and> b = LF")
    case True
    from 1(1) [OF True] have "sameLines (LF # replace_crlf cs) (LF # cs)"
      by (rule sameLines_Cons)
    with sameLines_crlf [of cs] True show ?thesis
      by (auto intro: sameLines_trans)
  next
    case False
    from 1(2) [OF False] have "sameLines (a # replace_crlf (b # cs)) (a # b # cs)"
      by (rule sameLines_Cons)
    with False show ?thesis by auto
  qed
qed (simp_all add: sameLines_refl)

lemma lastNewline_Some:
  "lastNewline ws = Some j \<Longrightarrow> j < length ws \<and> ws ! j = LF"
proof (induction ws arbitrary: j)
  case Nil
  then show ?case by simp
next
  case (Cons c ws)
  then show ?case by (auto split: option.splits if_splits)
qed

lemma removeEmptyLines_sameLines: "sameLines (removeEmptyLines s) s"
proof (induction s rule: removeEmptyLines.induct)
  case 1
  show ?case by (simp add: sameLines_refl)
next
  case (2 c cs)
  show ?case
  proof (cases "c = LF")
    case False
    from 2(3) [OF False] have "sameLines (c # removeEmptyLines cs) (c # cs)"
      by (rule sameLines_Cons)
    with False show ?thesis by simp
  next
    case True
    show ?thesis
    proof (cases "lastNewline (takeWhile isSpace cs)")
      case None
      from 2(1) [OF True None] have "sameLines (c # removeEmptyLines cs) (c # cs)"
        by (rule sameLines_Cons)
      with True None show ?thesis by simp
    next
      case (Some j)
      let ?ws = "takeWhile isSpace cs"
      from lastNewline_Some [OF Some] have j: "j < length ?ws" and lf: "?ws ! j = LF" by simp_all
      have jl: "j < length cs" using j length_takeWhile_le [of isSpace cs] by simp
      have pre: "take j cs = take j ?ws"
        using j by (metis takeWhile_dropWhile_id append_eq_conv_conj take_append
            less_imp_le_nat take_all_iff diff_is_0_eq' take0 append_Nil2 take_take min.absorb1)
      have "cs ! j = LF" using lf j by (simp add: takeWhile_nth)
      then have cs: "cs = take j cs @ LF # drop (Suc j) cs"
        using jl by (metis id_take_nth_drop)
      have blank: "\<forall>x\<in>set (take j cs). isSpace x"
        unfolding pre by (metis in_set_takeD set_takeWhileD)
      have "sameLines (LF # drop (Suc j) cs) (LF # take j cs @ LF # drop (Suc j) cs)"
        using blank by (rule sameLines_blank)
      then have 1: "sameLines (LF # drop (Suc j) cs) (LF # cs)" using cs by simp
      from 2(2) [OF True Some]
      have "sameLines (LF # removeEmptyLines (drop (Suc j) cs)) (LF # drop (Suc j) cs)"
        by (rule sameLines_Cons)
      then have "sameLines (LF # removeEmptyLines (drop (Suc j) cs)) (LF # cs)"
        using 1 by (rule sameLines_trans)
      with True Some show ?thesis by simp
    qed
  qed
qed

lemma nonblankLines_dropWhile: "nonblankLines (dropWhile isSpace s) = nonblankLines s"
  by (induction s) (simp_all add: nonblankLines_Cons_space)

lemma nonblankLines_rtrim:
  "nonblankLines (rev (dropWhile isSpace (rev s))) = nonblankLines s"
proof (induction s rule: rev_induct)
  case Nil
  show ?case by simp
next
  case (snoc c s)
  then show ?case by (simp add: nonblankLines_snoc_space)
qed

lemma nonblankLines_trim: "nonblankLines (trim s) = nonblankLines s"
  by (simp add: trim_def nonblankLines_rtrim nonblankLines_dropWhile)

lemma nonblankLines_cleanMarkdown: "nonblankLines (cleanMarkdown markdown) = nonblankLines markdown"
  using sameLines_lines [OF removeEmptyLines_sameLines, of "replace_crlf markdown"]
    sameLines_lines [OF replace_crlf_sameLines, of markdown]
  by (simp add: cleanMarkdown_def nonblankLines_trim)

lemma parseMarkdown_lines:
  "parseMarkdown markdown =
     (case parseTrimmed initialState (nonblankLines markdown) of
        Inl e \<Rightarrow> Inl e
      | Inr st \<Rightarrow> finish st)"
  using nonblankLines_cleanMarkdown [of markdown]
  by (simp add: parseMarkdown_def parseLines_nonblank nonblankLines_def)

section \<open>The classifier on plain lines and on list lines\<close>

lemma startsWith_Nil [simp]: "startsWith s [] = True"
  by (simp add: startsWith_def)

lemma startsWith_Cons_Cons [simp]:
  "startsWith (c # s) (d # p) = (c = d \<and> startsWith s p)"
  by (auto simp: startsWith_def)

lemma startsWith_Nil_Cons [simp]: "startsWith [] (d # p) = False"
  by (simp add: startsWith_def)

lemma startsWith_ConsE:
  assumes "startsWith l (d # p)"
  obtains r where "l = d # r" and "startsWith r p"
  using assms by (cases l) simp_all

lemma parseLine_plain:
  "isPlain line \<Longrightarrow> \<not> isInList st \<Longrightarrow>
     parseLine st line = Inr (pushBlock (createParagraph line) st)"
  by (simp add: parseLine_def isPlain_def flushList_def)

lemma parseTrimmed_plain:
  "\<forall>l\<in>set ls. isPlain l \<Longrightarrow> \<not> isInList st \<Longrightarrow>
     parseTrimmed st ls = Inr (st\<lparr>blocks := blocks st @ map createParagraph ls\<rparr>)"
proof (induction ls arbitrary: st)
  case Nil
  show ?case by simp
next
  case (Cons l ls)
  have 1: "parseLine st l = Inr (pushBlock (createParagraph l) st)"
    using Cons.prems by (simp add: parseLine_plain)
  have "\<not> isInList (pushBlock (createParagraph l) st)"
    using Cons.prems by (simp add: pushBlock_def)
  with Cons.IH [of "pushBlock (createParagraph l) st"] Cons.prems 1
  show ?case by (simp add: pushBlock_def)
qed

lemma parseLine_bullet:
  assumes "startsWith l (js ''* '') \<or> startsWith l (js ''- '')"
  shows "parseLine st l = map_sum id (pushItem (drop 2 l)) (enterList bulletList st)"
proof -
  from assms obtain c r where "l = c # r" "c = cu (CHR ''*'') \<or> c = cu (CHR ''-'')"
    by (auto elim: startsWith_ConsE)
  with assms show ?thesis by (auto simp: parseLine_def)
qed

lemma three_bullets:
  assumes "startsWith l1 (js ''- '')" and "startsWith l2 (js ''- '')" and "startsWith l3 (js ''- '')"
  shows "parseTrimmed initialState (l1 # l2 # l3 # ls)
     = parseTrimmed \<lparr>blocks = [], currentList = [drop 2 l1, drop 2 l2, drop 2 l3],
          isInList = True, listType = Some bulletList\<rparr> ls"
  using assms
  by (simp add: parseLine_bullet initialState_def enterList_def pushItem_def)

lemma parseLine_nonlist:
  assumes "\<not> isListLine l"
  defines "bs \<equiv> (case parseLine initialState l of Inr s \<Rightarrow> blocks s | Inl e \<Rightarrow> [])"
  shows "parseLine st l = map_sum id (\<lambda>st'. st'\<lparr>blocks := blocks st' @ bs\<rparr>) (flushList st)"
proof -
  have push: "pushBlock b = (\<lambda>st'. st'\<lparr>blocks := blocks st' @ [b]\<rparr>)" for b
    by (rule ext) (simp add: pushBlock_def)
  have init: "flushList initialState = Inr initialState" "blocks initialState = []"
    by (simp_all add: flushList_def initialState_def)
  from assms(1) have no: "\<not> startsWith l (js ''* '')" "\<not> startsWith l (js ''- '')" "numberedPrefix l = None"
    by (simp_all add: isListLine_def)
  show ?thesis
    using no unfolding bs_def parseLine_def push
    by (simp add: init split: option.split prod.split)
qed

section \<open>The image pattern and the link pattern\<close>

text \<open>
  The lazy group followed by a closing parenthesis captures the text up to the first
  closing parenthesis, provided no line terminator stands before it; from this the two
  patterns are characterised by the occurrence predicates, and on a line that passes a
  guard the captures are located in the line.
\<close>

lemma lazyDot_literal_eq:
  "lazyDot (literal [cu (CHR '')'')]) acc r =
     (if closesCleanly r then Some (rev acc @ takeWhile (\<lambda>c. c \<noteq> cu (CHR '')'')) r, ())
      else None)"
proof (induction r arbitrary: acc)
  case Nil
  show ?case by (simp add: literal_def closesCleanly_def)
next
  case (Cons c r)
  show ?case
  proof (cases "c = cu (CHR '')'')")
    case True
    then show ?thesis
      by (simp add: literal_def closesCleanly_def noLineTerminator_def)
  next
    case False
    then have l: "literal [cu (CHR '')'')] (c # r) = None" by (simp add: literal_def)
    show ?thesis
    proof (cases "isLineTerminator c")
      case True
      with False l show ?thesis by (simp add: closesCleanly_def noLineTerminator_def)
    next
      case nt: False
      from False nt have "closesCleanly (c # r) = closesCleanly r"
        by (auto simp: closesCleanly_def noLineTerminator_def)
      with False nt l Cons.IH [of "c # acc"] show ?thesis by simp
    qed
  qed
qed

lemma parenAt_eq:
  "parenAt s =
     (case s of
        [] \<Rightarrow> None
      | c # r \<Rightarrow> if c = cu (CHR ''('') \<and> closesCleanly r
                 then Some (takeWhile (\<lambda>c. c \<noteq> cu (CHR '')'')) r) else None)"
  by (cases s) (auto simp: parenAt_def lazyDot_literal_eq)

lemma matchParen_Nil: "matchParen [] = None"
  by (simp add: matchParen_def parenAt_eq)

lemma matchParen_Cons:
  "matchParen (c # r) =
     (if c = cu (CHR ''('') \<and> closesCleanly r
      then Some (takeWhile (\<lambda>c. c \<noteq> cu (CHR '')'')) r) else matchParen r)"
  by (simp add: matchParen_def parenAt_eq)

lemma matchParen_occurs: "matchParen line = None \<longleftrightarrow> \<not> parenPatternOccurs line"
  by (induction line) (auto simp: matchParen_Nil matchParen_Cons)

lemma matchParen_skip: "cu (CHR ''('') \<notin> set pre \<Longrightarrow> matchParen (pre @ s) = matchParen s"
  by (induction pre) (auto simp: matchParen_Cons)

lemma matchParen_Some_clean: "matchParen line = Some u \<Longrightarrow> noLineTerminator u"
  by (induction line) (auto simp: matchParen_Nil matchParen_Cons closesCleanly_def split: if_splits)

lemma lazyDot_first:
  assumes "p \<le> length s" and "\<forall>j<p. k (drop j s) = None" and "k (drop p s) = Some r"
    and "\<forall>c\<in>set (take p s). \<not> isLineTerminator c"
  shows "lazyDot k acc s = Some (rev acc @ take p s, r)"
  using assms
proof (induction p arbitrary: s acc)
  case 0
  then show ?case by (cases s) simp_all
next
  case (Suc p)
  then obtain c cs where s: "s = c # cs" by (cases s) auto
  from Suc.prems(2) have k0: "k (c # cs) = None" unfolding s by (metis drop0 zero_less_Suc)
  from Suc.prems(4) have c: "\<not> isLineTerminator c" unfolding s by simp
  have "lazyDot k (c # acc) cs = Some (rev (c # acc) @ take p cs, r)"
  proof (rule Suc.IH)
    show "p \<le> length cs" using Suc.prems(1) s by simp
    show "\<forall>j<p. k (drop j cs) = None"
    proof (intro allI impI)
      fix j assume "j < p"
      then have "k (drop (Suc j) s) = None" using Suc.prems(2) by simp
      then show "k (drop j cs) = None" unfolding s by simp
    qed
    show "k (drop p cs) = Some r" using Suc.prems(3) s by simp
    show "\<forall>c\<in>set (take p cs). \<not> isLineTerminator c" using Suc.prems(4) s by simp
  qed
  with k0 c show ?case unfolding s by simp
qed

lemma split_at_first:
  assumes "x \<in> set y"
  obtains u v where "y = u @ x # v" and "x \<notin> set u" and "u = takeWhile (\<lambda>c. c \<noteq> x) y"
    and "x # v = dropWhile (\<lambda>c. c \<noteq> x) y"
proof -
  let ?u = "takeWhile (\<lambda>c. c \<noteq> x) y" and ?d = "dropWhile (\<lambda>c. c \<noteq> x) y"
  have "?d \<noteq> []" using assms by (simp add: dropWhile_eq_Nil_conv)
  moreover from this have "hd ?d = x" using hd_dropWhile [of "\<lambda>c. c \<noteq> x" y] by simp
  ultimately have d: "?d = x # tl ?d" by (cases ?d) simp_all
  show ?thesis
  proof (rule that)
    show "y = ?u @ x # tl ?d" using takeWhile_dropWhile_id [of "\<lambda>c. c \<noteq> x" y] d by simp
    show "x \<notin> set ?u" using set_takeWhileD [of x "\<lambda>c. c \<noteq> x" y] by blast
    show "?u = takeWhile (\<lambda>c. c \<noteq> x) y" by simp
    show "x # tl ?d = ?d" using d by simp
  qed
qed

lemma endsWith_last: "endsWith line [c] \<Longrightarrow> line \<noteq> [] \<and> last line = c"
proof -
  assume "endsWith line [c]"
  then have l: "1 \<le> length line" and d: "drop (length line - 1) line = [c]"
    by (simp_all add: endsWith_def)
  from l have ne: "line \<noteq> []" by auto
  have "line = take (length line - 1) line @ drop (length line - 1) line" by simp
  with d have "line = take (length line - 1) line @ [c]" by simp
  then have "last line = c" by (metis last_snoc)
  with ne show ?thesis by simp
qed

lemma includesStr_occurs:
  assumes "includesStr line pat"
  obtains q where "indexOf_from pat line 0 = Some q" and "startsWith (drop q line) pat"
proof -
  from assms obtain q where q: "indexOf_from pat line 0 = Some q"
    by (auto simp: includesStr_def indexOf_def)
  from indexOf_from_starts [OF q] have "startsWith (drop q line) pat" by simp
  with q that show ?thesis by blast
qed

lemma indexOf_from_least:
  "indexOf_from pat s k = Some e \<Longrightarrow> j < e - k \<Longrightarrow> \<not> startsWith (drop j s) pat"
proof (induction s arbitrary: k j)
  case Nil
  then show ?case by (simp split: if_splits)
next
  case (Cons c cs)
  show ?case
  proof (cases "startsWith (c # cs) pat")
    case True
    with Cons.prems show ?thesis by simp
  next
    case False
    with Cons.prems have *: "indexOf_from pat cs (Suc k) = Some e" by simp
    show ?thesis
    proof (cases j)
      case 0
      with False show ?thesis by simp
    next
      case (Suc j')
      with Cons.prems(2) have "j' < e - Suc k" by simp
      from Cons.IH [OF * this] Suc show ?thesis by simp
    qed
  qed
qed

lemma parseLine_image:
  assumes "imageGuard line"
  shows "parseLine st line =
     map_sum id
       (\<lambda>st'. case matchParen line of None \<Rightarrow> st' | Some url \<Rightarrow> pushBlock (createImage url) st')
       (flushList st)"
proof -
  from assms have "startsWith line (js ''!['')" by (simp add: imageGuard_def)
  then obtain r where line: "line = cu (CHR ''!'') # r" by (auto elim: startsWith_ConsE)
  have "numberedPrefix line = None"
    unfolding line by (simp add: numberedPrefix_def isDigit_def)
  with assms show ?thesis
    unfolding parseLine_def by (simp add: line)
qed

lemma parseLine_link:
  assumes "linkGuard line"
  shows "parseLine st line =
     map_sum id
       (\<lambda>st'. case matchLink line of
                 None \<Rightarrow> st'
               | Some (text, url) \<Rightarrow> pushBlock (createBookmark url text) st')
       (flushList st)"
proof -
  from assms have "startsWith line (js ''['')" by (simp add: linkGuard_def)
  then obtain r where line: "line = cu (CHR ''['') # r" by (auto elim: startsWith_ConsE)
  have "numberedPrefix line = None"
    unfolding line by (simp add: numberedPrefix_def isDigit_def)
  moreover have "\<not> imageGuard line"
    unfolding line by (simp add: imageGuard_def)
  ultimately show ?thesis
    using assms unfolding parseLine_def by (simp add: line)
qed

lemma parseMarkdown_single:
  assumes "nonblankLines markdown = [line]"
    and "parseLine initialState line = Inr (initialState\<lparr>blocks := bs\<rparr>)"
  shows "parseMarkdown markdown = Inr bs"
  using assms by (simp add: parseMarkdown_lines finish_def initialState_def)

lemma flushList_initial: "flushList initialState = Inr initialState"
  by (simp add: flushList_def initialState_def)


lemma matchParen_first_iff:
  assumes "imageGuard line"
  shows "matchParen line = Some (firstParenContent line)
     \<longleftrightarrow> noLineTerminator (firstParenContent line)"
proof
  assume "matchParen line = Some (firstParenContent line)"
  then show "noLineTerminator (firstParenContent line)" by (rule matchParen_Some_clean)
next
  assume clean: "noLineTerminator (firstParenContent line)"
  from assms have inc: "includesStr line (js '']('')" and e: "endsWith line [cu (CHR '')'')]"
    by (simp_all add: imageGuard_def)
  from inc obtain q where "startsWith (drop q line) (js '']('')" by (rule includesStr_occurs)
  then obtain z where "drop q line = cu (CHR '']'') # cu (CHR ''('') # z"
    by (auto elim!: startsWith_ConsE)
  then have "cu (CHR ''('') \<in> set (drop q line)" by simp
  then have "cu (CHR ''('') \<in> set line" by (rule in_set_dropD)
  then obtain pre rest where line: "line = pre @ cu (CHR ''('') # rest" and pre: "cu (CHR ''('') \<notin> set pre"
    and dw: "cu (CHR ''('') # rest = dropWhile (\<lambda>c. c \<noteq> cu (CHR ''('')) line"
    by (rule split_at_first)
  from endsWith_last [OF e] have "last line = cu (CHR '')'')" "line \<noteq> []" by simp_all
  then have "last (cu (CHR ''('') # rest) = cu (CHR '')'')" unfolding line by simp
  then have "rest \<noteq> []" and "last rest = cu (CHR '')'')" by (auto split: if_splits)
  then have rest: "cu (CHR '')'') \<in> set rest" by (metis last_in_set)
  have fp: "firstParenContent line = takeWhile (\<lambda>c. c \<noteq> cu (CHR '')'')) rest"
    unfolding firstParenContent_def dw [symmetric] by simp
  from rest clean have cc: "closesCleanly rest" by (simp add: closesCleanly_def fp)
  have "matchParen line = matchParen (cu (CHR ''('') # rest)"
    unfolding line using pre by (rule matchParen_skip)
  also have "\<dots> = Some (takeWhile (\<lambda>c. c \<noteq> cu (CHR '')'')) rest)"
    using cc by (simp add: matchParen_Cons)
  finally show "matchParen line = Some (firstParenContent line)" by (simp only: fp)
qed

lemma lazyDot_SomeD:
  "lazyDot k acc s = Some (t, r) \<Longrightarrow>
     \<exists>p\<le>length s. t = rev acc @ take p s \<and> noLineTerminator (take p s) \<and> k (drop p s) = Some r"
proof (induction s arbitrary: acc)
  case Nil
  then show ?case by (auto simp: noLineTerminator_def split: option.splits)
next
  case (Cons c cs)
  show ?case
  proof (cases "k (c # cs)")
    case (Some r')
    with Cons.prems have "t = rev acc" "r' = r" by simp_all
    with Some have "t = rev acc @ take 0 (c # cs) \<and> noLineTerminator (take 0 (c # cs))
        \<and> k (drop 0 (c # cs)) = Some r"
      by (simp add: noLineTerminator_def)
    then show ?thesis by blast
  next
    case None
    with Cons.prems have c: "\<not> isLineTerminator c" and l: "lazyDot k (c # acc) cs = Some (t, r)"
      by (simp_all split: if_splits)
    from Cons.IH [OF l] obtain p where p: "p \<le> length cs" "t = rev (c # acc) @ take p cs"
      "noLineTerminator (take p cs)" "k (drop p cs) = Some r" by blast
    with c have "Suc p \<le> length (c # cs) \<and> t = rev acc @ take (Suc p) (c # cs)
        \<and> noLineTerminator (take (Suc p) (c # cs)) \<and> k (drop (Suc p) (c # cs)) = Some r"
      by (simp add: noLineTerminator_def)
    then show ?thesis by blast
  qed
qed

lemma firstMatch_SomeD: "firstMatch m s = Some r \<Longrightarrow> \<exists>j\<le>length s. m (drop j s) = Some r"
proof (induction s)
  case Nil
  then show ?case by simp
next
  case (Cons c cs)
  show ?case
  proof (cases "m (c # cs)")
    case (Some r')
    with Cons.prems have "m (drop 0 (c # cs)) = Some r" by simp
    then show ?thesis by blast
  next
    case None
    with Cons.prems have "firstMatch m cs = Some r" by simp
    from Cons.IH [OF this] obtain j where "j \<le> length cs" "m (drop j cs) = Some r" by blast
    then have "Suc j \<le> length (c # cs) \<and> m (drop (Suc j) (c # cs)) = Some r" by simp
    then show ?thesis by blast
  qed
qed

lemma linkRest_eq:
  "(\<lambda>r. if startsWith r (js '']('') then lazyDot (literal (js '')'')) [] (drop 2 r) else None)
     = linkRest"
  by (rule ext) (simp add: linkRest_def linkTail_def lazyDot_literal_eq)

lemma linkAt_eq:
  "linkAt s =
     (case s of
        [] \<Rightarrow> None
      | c # r \<Rightarrow> if c = cu (CHR ''['')
                 then map_option (\<lambda>(t, u, _). (t, u)) (lazyDot linkRest [] r) else None)"
  unfolding linkAt_def linkRest_eq by (cases s) auto

lemma linkRest_Nil: "linkRest [] = None"
  by (simp add: linkRest_def linkTail_def)

lemma lazyDot_linkRest_iff: "lazyDot linkRest acc r = None \<longleftrightarrow> \<not> linkFrom r"
proof (induction r arbitrary: acc)
  case Nil
  show ?case by (simp add: linkRest_Nil)
next
  case (Cons c r)
  show ?case
  proof (cases "linkTail (c # r)")
    case True
    then show ?thesis by (simp add: linkRest_def)
  next
    case False
    then have "linkRest (c # r) = None" by (simp add: linkRest_def)
    with False Cons.IH [of "c # acc"] show ?thesis by simp
  qed
qed

lemma matchLink_Nil: "matchLink [] = None"
  by (simp add: matchLink_def linkAt_eq)

lemma matchLink_Cons:
  "matchLink (c # r) =
     (if c = cu (CHR ''['') \<and> linkFrom r
      then map_option (\<lambda>(t, u, _). (t, u)) (lazyDot linkRest [] r) else matchLink r)"
proof (cases "c = cu (CHR ''['') \<and> linkFrom r")
  case True
  then have "lazyDot linkRest [] r \<noteq> None" by (simp only: lazyDot_linkRest_iff simp_thms)
  then obtain x where "lazyDot linkRest [] r = Some x" by blast
  with True show ?thesis by (simp add: matchLink_def linkAt_eq)
next
  case False
  then have "c \<noteq> cu (CHR ''['') \<or> lazyDot linkRest [] r = None"
    by (auto simp: lazyDot_linkRest_iff)
  then have "linkAt (c # r) = None" by (auto simp: linkAt_eq)
  with False show ?thesis by (auto simp: matchLink_def)
qed

lemma matchLink_occurs: "matchLink line = None \<longleftrightarrow> \<not> linkPatternOccurs line"
proof (induction line)
  case Nil
  show ?case by (simp add: matchLink_Nil)
next
  case (Cons c r)
  show ?case
  proof (cases "c = cu (CHR ''['') \<and> linkFrom r")
    case True
    then have "lazyDot linkRest [] r \<noteq> None" by (simp only: lazyDot_linkRest_iff simp_thms)
    then obtain x where "lazyDot linkRest [] r = Some x" by blast
    with True show ?thesis by (simp add: matchLink_Cons)
  next
    case False
    with Cons.IH show ?thesis by (auto simp: matchLink_Cons)
  qed
qed

lemma matchLink_Some_clean:
  assumes "matchLink line = Some (t, u)"
  shows "noLineTerminator t \<and> noLineTerminator u"
proof -
  from assms obtain j where "linkAt (drop j line) = Some (t, u)"
    unfolding matchLink_def by (blast dest: firstMatch_SomeD)
  then obtain r where l: "lazyDot linkRest [] r = Some (t, u, ())"
    by (auto simp: linkAt_eq split: list.splits if_splits)
  from lazyDot_SomeD [OF l] obtain p where t: "t = take p r" "noLineTerminator (take p r)"
    and k: "linkRest (drop p r) = Some (u, ())" by auto
  from k have "closesCleanly (drop 2 (drop p r))"
    and "u = takeWhile (\<lambda>c. c \<noteq> cu (CHR '')'')) (drop 2 (drop p r))"
    by (auto simp: linkRest_def linkTail_def split: if_splits)
  then have "noLineTerminator u" by (simp add: closesCleanly_def)
  with t show ?thesis by simp
qed

lemma matchLink_first_iff:
  assumes "linkGuard line"
  shows "matchLink line = Some (linkText line, linkUrl line)
     \<longleftrightarrow> noLineTerminator (linkText line) \<and> noLineTerminator (linkUrl line)"
proof
  assume "matchLink line = Some (linkText line, linkUrl line)"
  then show "noLineTerminator (linkText line) \<and> noLineTerminator (linkUrl line)"
    by (rule matchLink_Some_clean)
next
  assume clean: "noLineTerminator (linkText line) \<and> noLineTerminator (linkUrl line)"
  from assms have sw: "startsWith line (js ''['')" and inc: "includesStr line (js '']('')"
    and e: "endsWith line [cu (CHR '')'')]"
    by (simp_all add: linkGuard_def)
  from sw obtain s where line: "line = cu (CHR ''['') # s" by (auto elim: startsWith_ConsE)
  from inc obtain q where q: "indexOf_from (js '']('')  line 0 = Some q"
    by (auto simp: includesStr_def indexOf_def)
  then have "indexOf_from (js '']('')  s (Suc 0) = Some q" unfolding line by simp
  then obtain p where p: "indexOf_from (js '']('')  s 0 = Some p"
    using indexOf_from_shift [of "(js '']('')" s "Suc 0"] by (cases "indexOf_from (js '']('')  s 0") simp_all
  from indexOf_from_bounds [OF p] have ple: "p \<le> length s" by simp
  from indexOf_from_starts [OF p] have st: "startsWith (drop p s) (js '']('')" by simp
  then obtain y where y: "drop p s = cu (CHR '']'') # cu (CHR ''('') # y"
    by (auto elim!: startsWith_ConsE)
  have s: "s = take p s @ cu (CHR '']'') # cu (CHR ''('') # y"
    using append_take_drop_id [of p s] y by simp
  from endsWith_last [OF e] have "last line = cu (CHR '')'')" by simp
  then have "last (cu (CHR ''('') # y) = cu (CHR '')'')"
    unfolding line by (subst (asm) s) (simp add: last_append)
  then have "y \<noteq> []" and "last y = cu (CHR '')'')" by (auto split: if_splits)
  then have cy: "cu (CHR '')'') \<in> set y" by (metis last_in_set)
  from p have p': "indexOf_from [cu (CHR '']''), cu (CHR ''('')] s 0 = Some p" by simp
  have tx: "linkText line = take p s"
    by (simp add: linkText_def line p')
  have dy: "drop 2 (drop p s) = y" unfolding y by simp
  then have "drop (p + 2) s = y" by (simp add: add.commute)
  then have ur: "linkUrl line = takeWhile (\<lambda>c. c \<noteq> cu (CHR '')'')) y"
    by (simp add: linkUrl_def line p')
  from clean have ntp: "\<forall>c\<in>set (take p s). \<not> isLineTerminator c"
    by (simp add: tx noLineTerminator_def)
  from clean cy have "closesCleanly y" by (simp add: closesCleanly_def ur)
  with st dy have "linkTail (drop p s)" by (simp only: linkTail_def simp_thms)
  with dy have at: "linkRest (drop p s) = Some (takeWhile (\<lambda>c. c \<noteq> cu (CHR '')'')) y, ())"
    by (simp only: linkRest_def if_True)
  have before: "\<forall>j<p. linkRest (drop j s) = None"
    using indexOf_from_least [OF p] by (simp add: linkRest_def linkTail_def)
  from lazyDot_first [of p s linkRest _ "[]", OF ple before at ntp]
  have ld: "lazyDot linkRest [] s = Some (take p s, takeWhile (\<lambda>c. c \<noteq> cu (CHR '')'')) y, ())"
    by simp
  then have "lazyDot linkRest [] s \<noteq> None" by simp
  then have "linkFrom s" by (simp only: lazyDot_linkRest_iff simp_thms)
  with ld have "matchLink line = Some (take p s, takeWhile (\<lambda>c. c \<noteq> cu (CHR '')'')) y)"
    unfolding line by (simp add: matchLink_Cons)
  then show "matchLink line = Some (linkText line, linkUrl line)" by (simp only: tx ur)
qed

lemma map_sum_same: "map_sum id (\<lambda>x. x) s = s"
  by (cases s) simp_all

lemma image_document:
  assumes "nonblankLines markdown = [line]" and "imageGuard line"
  shows "parseMarkdown markdown
     = Inr (case matchParen line of None \<Rightarrow> [] | Some url \<Rightarrow> [createImage url])"
proof -
  have "parseLine initialState line
      = Inr (initialState\<lparr>blocks :=
               case matchParen line of None \<Rightarrow> [] | Some url \<Rightarrow> [createImage url]\<rparr>)"
    unfolding parseLine_image [OF assms(2)] flushList_initial
    by (simp add: pushBlock_def initialState_def split: option.splits)
  with assms(1) show ?thesis by (rule parseMarkdown_single)
qed

lemma link_document:
  assumes "nonblankLines markdown = [line]" and "linkGuard line"
  shows "parseMarkdown markdown
     = Inr (case matchLink line of
              None \<Rightarrow> []
            | Some (text, url) \<Rightarrow> [createBookmark url text])"
proof -
  have "parseLine initialState line
      = Inr (initialState\<lparr>blocks :=
               case matchLink line of
                 None \<Rightarrow> []
               | Some (text, url) \<Rightarrow> [createBookmark url text]\<rparr>)"
    unfolding parseLine_link [OF assms(2)] flushList_initial
    by (simp add: pushBlock_def initialState_def split: option.splits)
  with assms(1) show ?thesis by (rule parseMarkdown_single)
qed

text \<open>The parser on concrete documents, computed from the code equations.\<close>

lemma nonblankLines_example:
  "nonblankLines ((js ''one'') @ [CR, LF, cu (CHR '' ''), LF] @ (js ''  two **b** '') @ [LF]) = [(js ''one''), (js ''two **b**'')]"
  by code_simp

lemma isPlain_example: "isPlain (js ''one'')" "isPlain (js ''two **b**'')"
  by code_simp+

lemma three_items_lines:
  "nonblankLines ((js ''- item'') @ [LF] @ (js ''- item'') @ [LF] @ (js ''- item''))
     = [(js ''- item''), (js ''- item''), (js ''- item'')]"
  "nonblankLines ((js ''- item'') @ [LF] @ (js ''- item'') @ [LF] @ (js ''- item'') @ [LF] @ (js ''next''))
     = [(js ''- item''), (js ''- item''), (js ''- item''), (js ''next'')]"
  "nonblankLines (js ''next'') = [(js ''next'')]"
  by code_simp+

lemma next_alone: "\<not> isListLine (js ''next'')" "parseMarkdown (js ''next'') = Inr [createParagraph (js ''next'')]"
  by code_simp+

lemma image_examples:
  "parseMarkdown (js ''![alt](http://x/y.png)'') = Inr [createImage (js ''http://x/y.png'')]"
  "imageGuard (js ''![alt](http://x/y.png)'')"
  "noLineTerminator (firstParenContent (js ''![alt](http://x/y.png)''))"
  "nonblankLines (js ''![alt](http://x/y.png)'') = [js ''![alt](http://x/y.png)'']"
  "firstParenContent (js ''![alt](http://x/y.png)'') = js ''http://x/y.png''"
  "imageGuard (js ''![a'' @ [CR] @ js ''b](x)'')"
  "noLineTerminator (firstParenContent (js ''![a'' @ [CR] @ js ''b](x)''))"
  "nonblankLines (js ''![a'' @ [CR] @ js ''b](x)'') = [js ''![a'' @ [CR] @ js ''b](x)'']"
  "firstParenContent (js ''![a'' @ [CR] @ js ''b](x)'') = js ''x''"
  "imageGuard (js ''![a](x'' @ [LS] @ js ''y)'')"
  "\<not> parenPatternOccurs (js ''![a](x'' @ [LS] @ js ''y)'')"
  "nonblankLines (js ''![a](x'' @ [LS] @ js ''y)'') = [js ''![a](x'' @ [LS] @ js ''y)'']"
  by code_simp+

lemma link_examples:
  "parseMarkdown (js ''[Click](http://x)'')
     = Inr [createBlock ''bookmark''
              (BookmarkContent (js ''http://x'') (parseInlineStyles (js ''Click'')))]"
  "linkGuard (js ''[Click](http://x)'')"
  "noLineTerminator (linkText (js ''[Click](http://x)''))"
  "noLineTerminator (linkUrl (js ''[Click](http://x)''))"
  "linkText (js ''[Click](http://x)'') = js ''Click''"
  "linkUrl (js ''[Click](http://x)'') = js ''http://x''"
  "linkGuard (js ''[](http://y)'')"
  "noLineTerminator (linkText (js ''[](http://y)''))"
  "noLineTerminator (linkUrl (js ''[](http://y)''))"
  "nonblankLines (js ''[](http://y)'') = [js ''[](http://y)'']"
  "linkText (js ''[](http://y)'') = []"
  "linkUrl (js ''[](http://y)'') = js ''http://y''"
  "linkGuard (js ''[a](b)'' @ [CR] @ js '')'')"
  "noLineTerminator (linkText (js ''[a](b)'' @ [CR] @ js '')''))"
  "noLineTerminator (linkUrl (js ''[a](b)'' @ [CR] @ js '')''))"
  "nonblankLines (js ''[a](b)'' @ [CR] @ js '')'') = [js ''[a](b)'' @ [CR] @ js '')'']"
  "linkText (js ''[a](b)'' @ [CR] @ js '')'') = js ''a''"
  "linkUrl (js ''[a](b)'' @ [CR] @ js '')'') = js ''b''"
  "linkGuard (js ''[a](x'' @ [LS] @ js ''y)'')"
  "\<not> linkPatternOccurs (js ''[a](x'' @ [LS] @ js ''y)'')"
  "nonblankLines (js ''[a](x'' @ [LS] @ js ''y)'') = [js ''[a](x'' @ [LS] @ js ''y)'']"
  by code_simp+

lemma match_examples:
  "imageGuard (js ''![logo](a.png)'')"
  "noLineTerminator (firstParenContent (js ''![logo](a.png)''))"
  "nonblankLines (js ''![logo](a.png)'') = [js ''![logo](a.png)'']"
  "linkGuard (js ''[docs](b)'')"
  "noLineTerminator (linkText (js ''[docs](b)''))"
  "noLineTerminator (linkUrl (js ''[docs](b)''))"
  "nonblankLines (js ''[docs](b)'') = [js ''[docs](b)'']"
  "imageGuard (js ''![a](x'' @ [PS] @ js ''y)'')"
  "\<not> parenPatternOccurs (js ''![a](x'' @ [PS] @ js ''y)'')"
  "nonblankLines (js ''![a](x'' @ [PS] @ js ''y)'') = [js ''![a](x'' @ [PS] @ js ''y)'']"
  "linkGuard (js ''[a'' @ [CR] @ js ''b](c)'')"
  "\<not> linkPatternOccurs (js ''[a'' @ [CR] @ js ''b](c)'')"
  by code_simp+

section \<open>Claims about the line classifier\<close>

text \<open>
  C3. For every markdown input whose non-empty trimmed lines all fail every rule of the
  classifier (heading, list, code, quote, image, link), \<open>parseMarkdown\<close> returns exactly
  one paragraph block for each non-empty trimmed line of the input, in the order of the
  lines.
\<close>

theorem C3_plain_lines_paragraphs:
  "list_all isPlain (nonblankLines markdown) \<longrightarrow>
     parseMarkdown markdown = Inr (map createParagraph (nonblankLines markdown))"
proof
  assume "list_all isPlain (nonblankLines markdown)"
  then have "\<forall>l\<in>set (nonblankLines markdown). isPlain l" by (simp add: list_all_iff)
  then have "parseTrimmed initialState (nonblankLines markdown)
      = Inr (initialState\<lparr>blocks := blocks initialState @ map createParagraph (nonblankLines markdown)\<rparr>)"
    by (rule parseTrimmed_plain) (simp add: initialState_def)
  then show "parseMarkdown markdown = Inr (map createParagraph (nonblankLines markdown))"
    by (simp add: parseMarkdown_lines finish_def initialState_def)
qed

theorem C3_plain_lines_paragraphs_witness:
  "list_all isPlain (nonblankLines ((js ''one'') @ [CR, LF, cu (CHR '' ''), LF] @ (js ''  two **b** '') @ [LF]))
   \<and> parseMarkdown ((js ''one'') @ [CR, LF, cu (CHR '' ''), LF] @ (js ''  two **b** '') @ [LF])
       = Inr [createParagraph (js ''one''), createParagraph (js ''two **b**'')]"
proof -
  have h: "list_all isPlain (nonblankLines ((js ''one'') @ [CR, LF, cu (CHR '' ''), LF] @ (js ''  two **b** '') @ [LF]))"
    unfolding nonblankLines_example using isPlain_example by simp
  have c: "parseMarkdown ((js ''one'') @ [CR, LF, cu (CHR '' ''), LF] @ (js ''  two **b** '') @ [LF])
      = Inr (map createParagraph
          (nonblankLines ((js ''one'') @ [CR, LF, cu (CHR '' ''), LF] @ (js ''  two **b** '') @ [LF])))"
    using C3_plain_lines_paragraphs [of "(js ''one'') @ [CR, LF, cu (CHR '' ''), LF] @ (js ''  two **b** '') @ [LF]"] h
    by (rule mp)
  show ?thesis using h c unfolding nonblankLines_example by simp
qed

text \<open>
  C4. A document whose non-empty trimmed lines are three lines that start with \<open>- \<close>
  yields exactly three sibling bulleted list item blocks, one for each item, each with its
  own item text tokenized. When a line follows that is not a list line, the state behind
  it has an empty, closed accumulator, and the result is the three items followed by
  exactly the blocks that the line yields as a document of its own.
\<close>

theorem C4_three_bullets:
  "(nonblankLines markdown = [l1, l2, l3]
      \<and> startsWith l1 (js ''- '') \<and> startsWith l2 (js ''- '') \<and> startsWith l3 (js ''- '')
    \<longrightarrow> parseMarkdown markdown
          = Inr [bulletItem (drop 2 l1), bulletItem (drop 2 l2), bulletItem (drop 2 l3)])
   \<and> (nonblankLines markdown = [l1, l2, l3, l4] \<and> nonblankLines alone = [l4]
      \<and> startsWith l1 (js ''- '') \<and> startsWith l2 (js ''- '') \<and> startsWith l3 (js ''- '') \<and> \<not> isListLine l4
    \<longrightarrow> (\<exists>st bs. parseTrimmed initialState (nonblankLines markdown) = Inr st
           \<and> currentList st = [] \<and> \<not> isInList st
           \<and> parseMarkdown alone = Inr bs
           \<and> parseMarkdown markdown
               = Inr ([bulletItem (drop 2 l1), bulletItem (drop 2 l2), bulletItem (drop 2 l3)]
                      @ bs)))"
proof (intro conjI impI)
  assume a: "nonblankLines markdown = [l1, l2, l3]
      \<and> startsWith l1 (js ''- '') \<and> startsWith l2 (js ''- '') \<and> startsWith l3 (js ''- '')"
  then have b: "startsWith l1 (js ''- '')" "startsWith l2 (js ''- '')" "startsWith l3 (js ''- '')"
    and n: "nonblankLines markdown = [l1, l2, l3]"
    by simp_all
  have "parseTrimmed initialState [l1, l2, l3]
     = parseTrimmed \<lparr>blocks = [], currentList = [drop 2 l1, drop 2 l2, drop 2 l3],
          isInList = True, listType = Some bulletList\<rparr> []"
    using b by (rule three_bullets)
  then have "parseTrimmed initialState (nonblankLines markdown)
     = Inr \<lparr>blocks = [], currentList = [drop 2 l1, drop 2 l2, drop 2 l3],
          isInList = True, listType = Some bulletList\<rparr>"
    unfolding n by simp
  then show "parseMarkdown markdown
          = Inr [bulletItem (drop 2 l1), bulletItem (drop 2 l2), bulletItem (drop 2 l3)]"
    by (simp add: parseMarkdown_lines finish_def convertList_def createBulletList_def
        bulletItem_def)
next
  assume a: "nonblankLines markdown = [l1, l2, l3, l4] \<and> nonblankLines alone = [l4]
      \<and> startsWith l1 (js ''- '') \<and> startsWith l2 (js ''- '') \<and> startsWith l3 (js ''- '') \<and> \<not> isListLine l4"
  define bs where "bs = (case parseLine initialState l4 of Inr s \<Rightarrow> blocks s | Inl e \<Rightarrow> [])"
  let ?s3 = "\<lparr>blocks = [], currentList = [drop 2 l1, drop 2 l2, drop 2 l3],
          isInList = True, listType = Some bulletList\<rparr>"
  let ?bullets = "[bulletItem (drop 2 l1), bulletItem (drop 2 l2), bulletItem (drop 2 l3)]"
  let ?st = "\<lparr>blocks = ?bullets @ bs, currentList = [], isInList = False,
          listType = Some bulletList\<rparr>"
  from a have nl: "\<not> isListLine l4" by simp
  have 4: "parseLine ?s3 l4 = Inr ?st"
    using parseLine_nonlist [OF nl, of ?s3, folded bs_def]
    by (simp add: flushList_def convertList_def createBulletList_def bulletItem_def)
  have 0: "parseLine initialState l4 = Inr (initialState\<lparr>blocks := bs\<rparr>)"
    using parseLine_nonlist [OF nl, of initialState, folded bs_def]
    by (simp add: flushList_def initialState_def)
  from a have b: "startsWith l1 (js ''- '')" "startsWith l2 (js ''- '')" "startsWith l3 (js ''- '')"
    and n: "nonblankLines markdown = [l1, l2, l3, l4]"
    by simp_all
  have "parseTrimmed initialState [l1, l2, l3, l4] = parseTrimmed ?s3 [l4]"
    using b by (rule three_bullets)
  with 4 have st: "parseTrimmed initialState (nonblankLines markdown) = Inr ?st"
    unfolding n by simp
  have alone: "parseMarkdown alone = Inr bs"
    using a 0 by (simp add: parseMarkdown_lines finish_def initialState_def)
  have whole: "parseMarkdown markdown = Inr (?bullets @ bs)"
    using st by (simp add: parseMarkdown_lines finish_def)
  from st alone whole
  show "\<exists>st bs. parseTrimmed initialState (nonblankLines markdown) = Inr st
           \<and> currentList st = [] \<and> \<not> isInList st
           \<and> parseMarkdown alone = Inr bs
           \<and> parseMarkdown markdown = Inr (?bullets @ bs)"
    by (intro exI [of _ ?st] exI [of _ bs]) simp
qed

theorem C4_three_bullets_witness:
  "(nonblankLines ((js ''- item'') @ [LF] @ (js ''- item'') @ [LF] @ (js ''- item''))
        = [(js ''- item''), (js ''- item''), (js ''- item'')]
      \<and> startsWith (js ''- item'') (js ''- ''))
   \<and> parseMarkdown ((js ''- item'') @ [LF] @ (js ''- item'') @ [LF] @ (js ''- item''))
        = Inr [bulletItem (js ''item''), bulletItem (js ''item''), bulletItem (js ''item'')]
   \<and> (nonblankLines ((js ''- item'') @ [LF] @ (js ''- item'') @ [LF] @ (js ''- item'') @ [LF] @ (js ''next''))
        = [(js ''- item''), (js ''- item''), (js ''- item''), (js ''next'')]
      \<and> nonblankLines (js ''next'') = [(js ''next'')] \<and> \<not> isListLine (js ''next''))
   \<and> parseMarkdown ((js ''- item'') @ [LF] @ (js ''- item'') @ [LF] @ (js ''- item'') @ [LF] @ (js ''next''))
        = Inr [bulletItem (js ''item''), bulletItem (js ''item''), bulletItem (js ''item''),
               createParagraph (js ''next'')]"
proof -
  let ?m3 = "(js ''- item'') @ [LF] @ (js ''- item'') @ [LF] @ (js ''- item'')"
  let ?m4 = "(js ''- item'') @ [LF] @ (js ''- item'') @ [LF] @ (js ''- item'') @ [LF] @ (js ''next'')"
  have s: "startsWith (js ''- item'') (js ''- '')" by simp
  have c3: "parseMarkdown ?m3 = Inr [bulletItem (js ''item''), bulletItem (js ''item''), bulletItem (js ''item'')]"
    using C4_three_bullets [of ?m3 "(js ''- item'')" "(js ''- item'')" "(js ''- item'')" "(js ''next'')" "(js ''next'')"]
      three_items_lines(1) s
    by simp
  have "\<exists>st bs. parseTrimmed initialState (nonblankLines ?m4) = Inr st
           \<and> currentList st = [] \<and> \<not> isInList st
           \<and> parseMarkdown (js ''next'') = Inr bs
           \<and> parseMarkdown ?m4
               = Inr ([bulletItem (drop 2 (js ''- item'')), bulletItem (drop 2 (js ''- item'')),
                       bulletItem (drop 2 (js ''- item''))] @ bs)"
    using C4_three_bullets [of ?m4 "(js ''- item'')" "(js ''- item'')" "(js ''- item'')" "(js ''next'')" "(js ''next'')"]
      three_items_lines(2,3) s next_alone(1)
    by blast
  then have c4: "parseMarkdown ?m4
        = Inr [bulletItem (js ''item''), bulletItem (js ''item''), bulletItem (js ''item''),
               createParagraph (js ''next'')]"
    unfolding next_alone(2) by auto
  from c3 c4 three_items_lines s next_alone(1) show ?thesis by blast
qed

text \<open>
  C5, as the code has it. A line that starts with \<open>![\<close>, contains \<open>](\<close> and ends with
  \<open>)\<close> runs the image branch: behind the flush of an open list, one image block is pushed
  whose url is the first capture of the leftmost match of the pattern \<open>\((.*?)\)\<close>, and
  nothing is pushed when the pattern has no match. On such a line the url is the substring
  inside the first parenthesis pair of the whole line exactly when that substring holds
  none of the line terminators U+000A, U+000D, U+2028 and U+2029; the pattern has no
  match exactly when no opening parenthesis of the line is followed by a closing one with
  no line terminator in between. Accordingly a document of one such line yields the one
  image block of the match, or no block; the document \<open>![alt](http://x/y.png)\<close> yields
  one image block with url \<open>http://x/y.png\<close>.
\<close>

theorem C5_image_block:
  "(imageGuard line \<longrightarrow>
      parseLine st line =
        map_sum id
          (\<lambda>st'. case matchParen line of
                    None \<Rightarrow> st'
                  | Some url \<Rightarrow> pushBlock (createImage url) st')
          (flushList st))
   \<and> (imageGuard line \<longrightarrow>
        (matchParen line = Some (firstParenContent line))
          = noLineTerminator (firstParenContent line))
   \<and> (matchParen line = None) = (\<not> parenPatternOccurs line)
   \<and> (nonblankLines markdown = [line] \<and> imageGuard line \<longrightarrow>
        parseMarkdown markdown
          = Inr (case matchParen line of None \<Rightarrow> [] | Some url \<Rightarrow> [createImage url]))
   \<and> (nonblankLines markdown = [line] \<and> imageGuard line
        \<and> noLineTerminator (firstParenContent line) \<longrightarrow>
        parseMarkdown markdown = Inr [createImage (firstParenContent line)])
   \<and> (nonblankLines markdown = [line] \<and> imageGuard line \<and> \<not> parenPatternOccurs line \<longrightarrow>
        parseMarkdown markdown = Inr [])
   \<and> parseMarkdown (js ''![alt](http://x/y.png)'') = Inr [createImage (js ''http://x/y.png'')]"
proof (intro conjI impI)
  assume "imageGuard line"
  then show "parseLine st line =
        map_sum id
          (\<lambda>st'. case matchParen line of
                    None \<Rightarrow> st'
                  | Some url \<Rightarrow> pushBlock (createImage url) st')
          (flushList st)"
    by (rule parseLine_image)
next
  assume "imageGuard line"
  then show "(matchParen line = Some (firstParenContent line))
      = noLineTerminator (firstParenContent line)"
    by (rule matchParen_first_iff)
next
  show "(matchParen line = None) = (\<not> parenPatternOccurs line)"
    by (rule matchParen_occurs)
next
  assume "nonblankLines markdown = [line] \<and> imageGuard line"
  then show "parseMarkdown markdown
      = Inr (case matchParen line of None \<Rightarrow> [] | Some url \<Rightarrow> [createImage url])"
    by (simp add: image_document)
next
  assume a: "nonblankLines markdown = [line] \<and> imageGuard line
      \<and> noLineTerminator (firstParenContent line)"
  then have "matchParen line = Some (firstParenContent line)"
    by (simp add: matchParen_first_iff)
  with a show "parseMarkdown markdown = Inr [createImage (firstParenContent line)]"
    by (simp add: image_document)
next
  assume a: "nonblankLines markdown = [line] \<and> imageGuard line \<and> \<not> parenPatternOccurs line"
  then have "matchParen line = None" by (simp add: matchParen_occurs)
  with a show "parseMarkdown markdown = Inr []"
    by (simp add: image_document)
next
  show "parseMarkdown (js ''![alt](http://x/y.png)'') = Inr [createImage (js ''http://x/y.png'')]"
    by (rule image_examples(1))
qed

theorem C5_image_block_witness:
  "(imageGuard (js ''![alt](http://x/y.png)'')
      \<and> noLineTerminator (firstParenContent (js ''![alt](http://x/y.png)''))
      \<and> nonblankLines (js ''![alt](http://x/y.png)'') = [js ''![alt](http://x/y.png)''])
   \<and> matchParen (js ''![alt](http://x/y.png)'') = Some (js ''http://x/y.png'')
   \<and> parseLine initialState (js ''![alt](http://x/y.png)'')
        = Inr (pushBlock (createImage (js ''http://x/y.png'')) initialState)
   \<and> (imageGuard (js ''![a'' @ [CR] @ js ''b](x)'')
      \<and> noLineTerminator (firstParenContent (js ''![a'' @ [CR] @ js ''b](x)''))
      \<and> nonblankLines (js ''![a'' @ [CR] @ js ''b](x)'') = [js ''![a'' @ [CR] @ js ''b](x)''])
   \<and> parseMarkdown (js ''![a'' @ [CR] @ js ''b](x)'') = Inr [createImage (js ''x'')]
   \<and> (imageGuard (js ''![a](x'' @ [LS] @ js ''y)'')
      \<and> \<not> parenPatternOccurs (js ''![a](x'' @ [LS] @ js ''y)'')
      \<and> nonblankLines (js ''![a](x'' @ [LS] @ js ''y)'') = [js ''![a](x'' @ [LS] @ js ''y)''])
   \<and> matchParen (js ''![a](x'' @ [LS] @ js ''y)'') = None
   \<and> parseMarkdown (js ''![a](x'' @ [LS] @ js ''y)'') = Inr []"
proof -
  let ?l = "js ''![alt](http://x/y.png)''" and ?c = "js ''![a'' @ [CR] @ js ''b](x)''"
    and ?s = "js ''![a](x'' @ [LS] @ js ''y)''"
  note t = C5_image_block [of ?l initialState ?l] and u = C5_image_block [of ?c initialState ?c]
    and v = C5_image_block [of ?s initialState ?s]
  have "matchParen ?l = Some (firstParenContent ?l)"
    using t [THEN conjunct2, THEN conjunct1] image_examples(2,3) by blast
  then have m: "matchParen ?l = Some (js ''http://x/y.png'')"
    unfolding image_examples(5) .
  have p: "parseLine initialState ?l
      = Inr (pushBlock (createImage (js ''http://x/y.png'')) initialState)"
    using t [THEN conjunct1] image_examples(2) unfolding m by (simp add: flushList_initial)
  have "parseMarkdown ?c = Inr [createImage (firstParenContent ?c)]"
    using u [THEN conjunct2, THEN conjunct2, THEN conjunct2, THEN conjunct2, THEN conjunct1]
      image_examples(6,7,8) by blast
  then have c: "parseMarkdown ?c = Inr [createImage (js ''x'')]"
    unfolding image_examples(9) .
  have n: "matchParen ?s = None"
    using v [THEN conjunct2, THEN conjunct2, THEN conjunct1] image_examples(11) by blast
  have s: "parseMarkdown ?s = Inr []"
    using v [THEN conjunct2, THEN conjunct2, THEN conjunct2, THEN conjunct2, THEN conjunct2,
        THEN conjunct1]
      image_examples(10,11,12) by blast
  from m p c n s image_examples show ?thesis by blast
qed

text \<open>
  C5 as stated fails where a line terminator stands inside the first parenthesis pair: the
  dot of the pattern does not match a carriage return or the line separator U+2028, the
  match moves on to the second pair, and the url is \<open>c\<close>, not the content of the first
  pair.
\<close>

theorem C5_first_pair_counterexample:
  "imageGuard (js ''![('' @ [CR] @ js '')](c)'')
   \<and> firstParenContent (js ''![('' @ [CR] @ js '')](c)'') = [CR]
   \<and> parseMarkdown (js ''![('' @ [CR] @ js '')](c)'') = Inr [createImage (js ''c'')]
   \<and> imageGuard (js ''![('' @ [LS] @ js '')](c)'')
   \<and> firstParenContent (js ''![('' @ [LS] @ js '')](c)'') = [LS]
   \<and> parseMarkdown (js ''![('' @ [LS] @ js '')](c)'') = Inr [createImage (js ''c'')]"
  by code_simp

text \<open>
  C6, as the code has it. A line that starts with \<open>[\<close>, contains \<open>](\<close> and ends with
  \<open>)\<close> runs the bookmark branch: behind the flush of an open list, one bookmark block is
  pushed whose url is the second capture of the pattern \<open>\[(.*?)\]\((.*?)\)\<close> and whose
  caption is the tokenized first capture, or the empty sequence when the first capture is
  empty; nothing is pushed when the pattern has no match. On such a line the captures are
  the text between the opening bracket and the first \<open>](\<close> and the text from there to
  the next closing parenthesis exactly when neither of the two texts holds one of the line
  terminators U+000A, U+000D, U+2028 and U+2029; the pattern has no match exactly when no
  opening bracket of the line is followed, with no line terminator in between, by a
  \<open>](\<close> that is closed by a parenthesis with no line terminator in between.
  Accordingly a document of one such line yields the one bookmark block of the match, or
  no block; the document \<open>[Click](http://x)\<close> yields one bookmark block with url
  \<open>http://x\<close> and the caption tokenized from \<open>Click\<close>.
\<close>

theorem C6_bookmark_block:
  "(linkGuard line \<longrightarrow>
      parseLine st line =
        map_sum id
          (\<lambda>st'. case matchLink line of
                    None \<Rightarrow> st'
                  | Some (text, url) \<Rightarrow> pushBlock (createBookmark url text) st')
          (flushList st))
   \<and> createBookmark url caption =
        createBlock ''bookmark''
          (BookmarkContent url (if caption = [] then [] else parseInlineStyles caption))
   \<and> (linkGuard line \<longrightarrow>
        (matchLink line = Some (linkText line, linkUrl line))
          = (noLineTerminator (linkText line) \<and> noLineTerminator (linkUrl line)))
   \<and> (matchLink line = None) = (\<not> linkPatternOccurs line)
   \<and> (nonblankLines markdown = [line] \<and> linkGuard line \<longrightarrow>
        parseMarkdown markdown
          = Inr (case matchLink line of
                   None \<Rightarrow> []
                 | Some (text, url) \<Rightarrow> [createBookmark url text]))
   \<and> (nonblankLines markdown = [line] \<and> linkGuard line
        \<and> noLineTerminator (linkText line) \<and> noLineTerminator (linkUrl line) \<longrightarrow>
        parseMarkdown markdown = Inr [createBookmark (linkUrl line) (linkText line)])
   \<and> (nonblankLines markdown = [line] \<and> linkGuard line \<and> \<not> linkPatternOccurs line \<longrightarrow>
        parseMarkdown markdown = Inr [])
   \<and> parseMarkdown (js ''[Click](http://x)'')
        = Inr [createBlock ''bookmark''
                 (BookmarkContent (js ''http://x'') (parseInlineStyles (js ''Click'')))]"
proof (intro conjI impI)
  assume "linkGuard line"
  then show "parseLine st line =
        map_sum id
          (\<lambda>st'. case matchLink line of
                    None \<Rightarrow> st'
                  | Some (text, url) \<Rightarrow> pushBlock (createBookmark url text) st')
          (flushList st)"
    by (rule parseLine_link)
next
  show "createBookmark url caption =
        createBlock ''bookmark''
          (BookmarkContent url (if caption = [] then [] else parseInlineStyles caption))"
    by (simp add: createBookmark_def)
next
  assume "linkGuard line"
  then show "(matchLink line = Some (linkText line, linkUrl line))
      = (noLineTerminator (linkText line) \<and> noLineTerminator (linkUrl line))"
    by (rule matchLink_first_iff)
next
  show "(matchLink line = None) = (\<not> linkPatternOccurs line)"
    by (rule matchLink_occurs)
next
  assume "nonblankLines markdown = [line] \<and> linkGuard line"
  then show "parseMarkdown markdown
      = Inr (case matchLink line of
               None \<Rightarrow> []
             | Some (text, url) \<Rightarrow> [createBookmark url text])"
    by (simp add: link_document)
next
  assume a: "nonblankLines markdown = [line] \<and> linkGuard line
      \<and> noLineTerminator (linkText line) \<and> noLineTerminator (linkUrl line)"
  then have "matchLink line = Some (linkText line, linkUrl line)"
    by (simp add: matchLink_first_iff)
  with a show "parseMarkdown markdown = Inr [createBookmark (linkUrl line) (linkText line)]"
    by (simp add: link_document)
next
  assume a: "nonblankLines markdown = [line] \<and> linkGuard line \<and> \<not> linkPatternOccurs line"
  then have "matchLink line = None" by (simp add: matchLink_occurs)
  with a show "parseMarkdown markdown = Inr []"
    by (simp add: link_document)
next
  show "parseMarkdown (js ''[Click](http://x)'')
        = Inr [createBlock ''bookmark''
                 (BookmarkContent (js ''http://x'') (parseInlineStyles (js ''Click'')))]"
    by (rule link_examples(1))
qed

theorem C6_bookmark_block_witness:
  "(linkGuard (js ''[Click](http://x)'')
      \<and> noLineTerminator (linkText (js ''[Click](http://x)''))
      \<and> noLineTerminator (linkUrl (js ''[Click](http://x)'')))
   \<and> matchLink (js ''[Click](http://x)'') = Some (js ''Click'', js ''http://x'')
   \<and> (linkGuard (js ''[](http://y)'')
      \<and> noLineTerminator (linkText (js ''[](http://y)''))
      \<and> noLineTerminator (linkUrl (js ''[](http://y)''))
      \<and> nonblankLines (js ''[](http://y)'') = [js ''[](http://y)''])
   \<and> parseMarkdown (js ''[](http://y)'')
        = Inr [createBlock ''bookmark'' (BookmarkContent (js ''http://y'') [])]
   \<and> (linkGuard (js ''[a](b)'' @ [CR] @ js '')'')
      \<and> noLineTerminator (linkText (js ''[a](b)'' @ [CR] @ js '')''))
      \<and> noLineTerminator (linkUrl (js ''[a](b)'' @ [CR] @ js '')''))
      \<and> nonblankLines (js ''[a](b)'' @ [CR] @ js '')'') = [js ''[a](b)'' @ [CR] @ js '')''])
   \<and> parseMarkdown (js ''[a](b)'' @ [CR] @ js '')'') = Inr [createBookmark (js ''b'') (js ''a'')]
   \<and> (linkGuard (js ''[a](x'' @ [LS] @ js ''y)'')
      \<and> \<not> linkPatternOccurs (js ''[a](x'' @ [LS] @ js ''y)'')
      \<and> nonblankLines (js ''[a](x'' @ [LS] @ js ''y)'') = [js ''[a](x'' @ [LS] @ js ''y)''])
   \<and> matchLink (js ''[a](x'' @ [LS] @ js ''y)'') = None
   \<and> parseMarkdown (js ''[a](x'' @ [LS] @ js ''y)'') = Inr []"
proof -
  let ?l = "js ''[Click](http://x)''" and ?e = "js ''[](http://y)''"
    and ?c = "js ''[a](b)'' @ [CR] @ js '')''" and ?s = "js ''[a](x'' @ [LS] @ js ''y)''"
  note t = C6_bookmark_block [of ?l initialState "js ''http://y''" "[]" ?l]
    and u = C6_bookmark_block [of ?e initialState "js ''http://y''" "[]" ?e]
    and v = C6_bookmark_block [of ?c initialState "js ''http://y''" "[]" ?c]
    and w = C6_bookmark_block [of ?s initialState "js ''http://y''" "[]" ?s]
  have "matchLink ?l = Some (linkText ?l, linkUrl ?l)"
    using t [THEN conjunct2, THEN conjunct2, THEN conjunct1] link_examples(2,3,4) by blast
  then have m: "matchLink ?l = Some (js ''Click'', js ''http://x'')"
    unfolding link_examples(5,6) .
  have "parseMarkdown ?e = Inr [createBookmark (linkUrl ?e) (linkText ?e)]"
    using u [THEN conjunct2, THEN conjunct2, THEN conjunct2, THEN conjunct2, THEN conjunct2,
        THEN conjunct1]
      link_examples(7,8,9,10) by blast
  then have "parseMarkdown ?e = Inr [createBookmark (js ''http://y'') []]"
    unfolding link_examples(11,12) .
  moreover have "createBookmark (js ''http://y'') []
      = createBlock ''bookmark'' (BookmarkContent (js ''http://y'') [])"
    using u [THEN conjunct2, THEN conjunct1] by simp
  ultimately have e: "parseMarkdown ?e
        = Inr [createBlock ''bookmark'' (BookmarkContent (js ''http://y'') [])]"
    by simp
  have "parseMarkdown ?c = Inr [createBookmark (linkUrl ?c) (linkText ?c)]"
    using v [THEN conjunct2, THEN conjunct2, THEN conjunct2, THEN conjunct2, THEN conjunct2,
        THEN conjunct1]
      link_examples(13,14,15,16) by blast
  then have c: "parseMarkdown ?c = Inr [createBookmark (js ''b'') (js ''a'')]"
    unfolding link_examples(17,18) .
  have n: "matchLink ?s = None"
    using w [THEN conjunct2, THEN conjunct2, THEN conjunct2, THEN conjunct1] link_examples(20)
    by blast
  have s: "parseMarkdown ?s = Inr []"
    using w [THEN conjunct2, THEN conjunct2, THEN conjunct2, THEN conjunct2, THEN conjunct2,
        THEN conjunct2, THEN conjunct1]
      link_examples(19,20,21) by blast
  from m e c n s link_examples show ?thesis by blast
qed

text \<open>
  C6 as stated fails on a line with a line terminator between the parentheses: with a
  carriage return or with the line separator U+2028 there, the guard holds, the pattern
  has no match, and no block is emitted.
\<close>

theorem C6_no_bookmark_counterexample:
  "linkGuard (js ''[a]('' @ [CR] @ js '')'')
   \<and> parseMarkdown (js ''[a]('' @ [CR] @ js '')'') = Inr []
   \<and> linkGuard (js ''[a](x'' @ [LS] @ js ''y)'')
   \<and> parseMarkdown (js ''[a](x'' @ [LS] @ js ''y)'') = Inr []"
  by code_simp

text \<open>
  C10, as the code has it. The image pattern matches a line exactly when some opening
  parenthesis of the line is followed by a closing one with none of the line terminators
  U+000A, U+000D, U+2028 and U+2029 in between, and the link pattern exactly when some
  opening bracket is followed, with no line terminator in between, by a \<open>](\<close> that is
  closed by a parenthesis with no line terminator in between. A line that satisfies the
  image guard, or the bookmark guard, pushes exactly one block behind the flush when its
  pattern matches and is skipped when it does not; as a document it yields exactly one
  block, or none. The pattern does match when the text of the first parenthesis pair (for
  the bookmark guard: the text before the first \<open>](\<close> and the text from there to the
  next closing parenthesis) holds no line terminator.
\<close>

theorem C10_match_succeeds:
  "(matchParen line \<noteq> None) = parenPatternOccurs line
   \<and> (matchLink line \<noteq> None) = linkPatternOccurs line
   \<and> (imageGuard line \<and> noLineTerminator (firstParenContent line) \<longrightarrow>
        parenPatternOccurs line)
   \<and> (linkGuard line \<and> noLineTerminator (linkText line) \<and> noLineTerminator (linkUrl line) \<longrightarrow>
        linkPatternOccurs line)
   \<and> (imageGuard line \<and> parenPatternOccurs line \<longrightarrow>
        (\<exists>b. parseLine st line = map_sum id (pushBlock b) (flushList st)))
   \<and> (imageGuard line \<and> \<not> parenPatternOccurs line \<longrightarrow> parseLine st line = flushList st)
   \<and> (linkGuard line \<and> linkPatternOccurs line \<longrightarrow>
        (\<exists>b. parseLine st line = map_sum id (pushBlock b) (flushList st)))
   \<and> (linkGuard line \<and> \<not> linkPatternOccurs line \<longrightarrow> parseLine st line = flushList st)
   \<and> (nonblankLines markdown = [line]
        \<and> (imageGuard line \<and> parenPatternOccurs line \<or> linkGuard line \<and> linkPatternOccurs line)
      \<longrightarrow> (\<exists>b. parseMarkdown markdown = Inr [b]))
   \<and> (nonblankLines markdown = [line]
        \<and> (imageGuard line \<and> \<not> parenPatternOccurs line
           \<or> linkGuard line \<and> \<not> linkPatternOccurs line)
      \<longrightarrow> parseMarkdown markdown = Inr [])"
proof (intro conjI impI)
  show "(matchParen line \<noteq> None) = parenPatternOccurs line"
    by (simp only: matchParen_occurs simp_thms)
next
  show "(matchLink line \<noteq> None) = linkPatternOccurs line"
    by (simp only: matchLink_occurs simp_thms)
next
  assume a: "imageGuard line \<and> noLineTerminator (firstParenContent line)"
  then have "matchParen line = Some (firstParenContent line)"
    by (simp add: matchParen_first_iff)
  then have "matchParen line \<noteq> None" by simp
  then show "parenPatternOccurs line" by (simp only: matchParen_occurs simp_thms)
next
  assume a: "linkGuard line \<and> noLineTerminator (linkText line) \<and> noLineTerminator (linkUrl line)"
  then have "matchLink line = Some (linkText line, linkUrl line)"
    by (simp add: matchLink_first_iff)
  then have "matchLink line \<noteq> None" by simp
  then show "linkPatternOccurs line" by (simp only: matchLink_occurs simp_thms)
next
  assume a: "imageGuard line \<and> parenPatternOccurs line"
  then obtain url where "matchParen line = Some url"
    using matchParen_occurs [of line] by (cases "matchParen line") simp_all
  with a have "parseLine st line = map_sum id (pushBlock (createImage url)) (flushList st)"
    by (simp add: parseLine_image)
  then show "\<exists>b. parseLine st line = map_sum id (pushBlock b) (flushList st)" by blast
next
  assume a: "imageGuard line \<and> \<not> parenPatternOccurs line"
  then have "matchParen line = None" by (simp add: matchParen_occurs)
  with a show "parseLine st line = flushList st"
    by (simp add: parseLine_image map_sum_same)
next
  assume a: "linkGuard line \<and> linkPatternOccurs line"
  then obtain t u where "matchLink line = Some (t, u)"
    using matchLink_occurs [of line] by (cases "matchLink line") auto
  with a have "parseLine st line = map_sum id (pushBlock (createBookmark u t)) (flushList st)"
    by (simp add: parseLine_link)
  then show "\<exists>b. parseLine st line = map_sum id (pushBlock b) (flushList st)" by blast
next
  assume a: "linkGuard line \<and> \<not> linkPatternOccurs line"
  then have "matchLink line = None" by (simp add: matchLink_occurs)
  with a show "parseLine st line = flushList st"
    by (simp add: parseLine_link map_sum_same)
next
  assume a: "nonblankLines markdown = [line]
      \<and> (imageGuard line \<and> parenPatternOccurs line \<or> linkGuard line \<and> linkPatternOccurs line)"
  then have nb: "nonblankLines markdown = [line]" by simp
  from a have "imageGuard line \<and> parenPatternOccurs line \<or> linkGuard line \<and> linkPatternOccurs line"
    by simp
  then show "\<exists>b. parseMarkdown markdown = Inr [b]"
  proof
    assume g: "imageGuard line \<and> parenPatternOccurs line"
    then obtain url where "matchParen line = Some url"
      using matchParen_occurs [of line] by (cases "matchParen line") simp_all
    with g nb have "parseMarkdown markdown = Inr [createImage url]"
      by (simp add: image_document)
    then show ?thesis by blast
  next
    assume g: "linkGuard line \<and> linkPatternOccurs line"
    then obtain t u where "matchLink line = Some (t, u)"
      using matchLink_occurs [of line] by (cases "matchLink line") auto
    with g nb have "parseMarkdown markdown = Inr [createBookmark u t]"
      by (simp add: link_document)
    then show ?thesis by blast
  qed
next
  assume a: "nonblankLines markdown = [line]
      \<and> (imageGuard line \<and> \<not> parenPatternOccurs line
         \<or> linkGuard line \<and> \<not> linkPatternOccurs line)"
  then have nb: "nonblankLines markdown = [line]" by simp
  from a have "imageGuard line \<and> \<not> parenPatternOccurs line
      \<or> linkGuard line \<and> \<not> linkPatternOccurs line"
    by simp
  then show "parseMarkdown markdown = Inr []"
  proof
    assume g: "imageGuard line \<and> \<not> parenPatternOccurs line"
    then have "matchParen line = None" by (simp add: matchParen_occurs)
    with g nb show ?thesis by (simp add: image_document)
  next
    assume g: "linkGuard line \<and> \<not> linkPatternOccurs line"
    then have "matchLink line = None" by (simp add: matchLink_occurs)
    with g nb show ?thesis by (simp add: link_document)
  qed
qed

theorem C10_match_succeeds_witness:
  "(imageGuard (js ''![logo](a.png)'')
      \<and> noLineTerminator (firstParenContent (js ''![logo](a.png)''))
      \<and> nonblankLines (js ''![logo](a.png)'') = [js ''![logo](a.png)''])
   \<and> parenPatternOccurs (js ''![logo](a.png)'')
   \<and> matchParen (js ''![logo](a.png)'') \<noteq> None
   \<and> (\<exists>b. parseMarkdown (js ''![logo](a.png)'') = Inr [b])
   \<and> (linkGuard (js ''[docs](b)'')
      \<and> noLineTerminator (linkText (js ''[docs](b)''))
      \<and> noLineTerminator (linkUrl (js ''[docs](b)''))
      \<and> nonblankLines (js ''[docs](b)'') = [js ''[docs](b)''])
   \<and> linkPatternOccurs (js ''[docs](b)'')
   \<and> matchLink (js ''[docs](b)'') \<noteq> None
   \<and> (\<exists>b. parseMarkdown (js ''[docs](b)'') = Inr [b])
   \<and> (imageGuard (js ''![a](x'' @ [PS] @ js ''y)'')
      \<and> \<not> parenPatternOccurs (js ''![a](x'' @ [PS] @ js ''y)'')
      \<and> nonblankLines (js ''![a](x'' @ [PS] @ js ''y)'') = [js ''![a](x'' @ [PS] @ js ''y)''])
   \<and> matchParen (js ''![a](x'' @ [PS] @ js ''y)'') = None
   \<and> parseMarkdown (js ''![a](x'' @ [PS] @ js ''y)'') = Inr []
   \<and> (linkGuard (js ''[a'' @ [CR] @ js ''b](c)'')
      \<and> \<not> linkPatternOccurs (js ''[a'' @ [CR] @ js ''b](c)''))
   \<and> parseLine initialState (js ''[a'' @ [CR] @ js ''b](c)'') = flushList initialState"
proof -
  let ?i = "js ''![logo](a.png)''" and ?l = "js ''[docs](b)''"
    and ?s = "js ''![a](x'' @ [PS] @ js ''y)''" and ?n = "js ''[a'' @ [CR] @ js ''b](c)''"
  note t = C10_match_succeeds [of ?i initialState ?i]
    and u = C10_match_succeeds [of ?l initialState ?l]
    and v = C10_match_succeeds [of ?s initialState ?s]
    and w = C10_match_succeeds [of ?n initialState ?n]
  have io: "parenPatternOccurs ?i" using t match_examples(1,2) by blast
  have im: "matchParen ?i \<noteq> None" using t io by blast
  have ib: "\<exists>b. parseMarkdown ?i = Inr [b]" using t io match_examples(1,3) by blast
  have lo: "linkPatternOccurs ?l" using u match_examples(4,5,6) by blast
  have lm: "matchLink ?l \<noteq> None" using u lo by blast
  have lb: "\<exists>b. parseMarkdown ?l = Inr [b]" using u lo match_examples(4,7) by blast
  have sm: "matchParen ?s = None" using v match_examples(9) by blast
  have sb: "parseMarkdown ?s = Inr []" using v match_examples(8,9,10) by blast
  have nl: "parseLine initialState ?n = flushList initialState"
    using w match_examples(11,12) by blast
  from io im ib lo lm lb sm sb nl match_examples show ?thesis by blast
qed

text \<open>
  C10 as stated fails: a line with a carriage return, or with the line separator U+2028,
  between the parentheses satisfies the image guard, the pattern has no match, and the
  line is skipped; the same holds for the bookmark guard.
\<close>

theorem C10_skip_reached_counterexample:
  "imageGuard (js ''![a](x'' @ [CR] @ js ''y)'')
   \<and> matchParen (js ''![a](x'' @ [CR] @ js ''y)'') = None
   \<and> parseMarkdown (js ''![a](x'' @ [CR] @ js ''y)'') = Inr []
   \<and> imageGuard (js ''![a](x'' @ [LS] @ js ''y)'')
   \<and> matchParen (js ''![a](x'' @ [LS] @ js ''y)'') = None
   \<and> parseMarkdown (js ''![a](x'' @ [LS] @ js ''y)'') = Inr []
   \<and> linkGuard (js ''[a](x'' @ [PS] @ js ''y)'')
   \<and> matchLink (js ''[a](x'' @ [PS] @ js ''y)'') = None
   \<and> parseMarkdown (js ''[a](x'' @ [PS] @ js ''y)'') = Inr []"
  by code_simp

section \<open>Claims about the request adapter\<close>

text \<open>
  C7. \<open>main\<close> applies its gates in this order: a method that is supplied and is not
  POST in any letter case gives status 405 with the header Allow: POST and an error body;
  otherwise a content type that is present and does not include application/json gives
  415; otherwise markdown that is missing or empty gives 400 with an error body and no
  blocks; otherwise the conversion succeeds and the response is 200 with the blocks as
  children. An exception that the conversion call raises is caught and answered with
  status 500 and a message that embeds the failure text.
\<close>

theorem C7_request_gates:
  "(notPost args \<longrightarrow>
      main args = \<lparr>body = ErrorBody methodNotAllowed, statusCode = 405,
                   headers = [(''Content-Type'', ''application/json''), (''Allow'', ''POST'')]\<rparr>)
   \<and> (\<not> notPost args \<and> notJson args \<longrightarrow>
      main args = \<lparr>body = ErrorBody unsupportedMediaType, statusCode = 415,
                   headers = jsonHeader\<rparr>)
   \<and> (\<not> notPost args \<and> \<not> notJson args \<and> missingMd args \<longrightarrow>
      main args = \<lparr>body = ErrorBody badRequest, statusCode = 400, headers = jsonHeader\<rparr>)
   \<and> (\<not> notPost args \<and> \<not> notJson args \<and> \<not> missingMd args \<longrightarrow>
      (\<exists>bs. parseMarkdown (the (md args)) = Inr bs
         \<and> main args = \<lparr>body = ChildrenBody bs, statusCode = 200, headers = jsonHeader\<rparr>))
   \<and> (\<not> notPost args \<and> \<not> notJson args \<and> \<not> missingMd args
        \<and> convert (the (md args)) = Inl e \<longrightarrow>
      main_with convert args =
        \<lparr>body = ErrorBody (''Internal Server Error: '' @ failureText e), statusCode = 500,
         headers = jsonHeader\<rparr>)"
proof -
  obtain bs where bs: "parseMarkdown (the (md args)) = Inr bs"
    using parseMarkdown_returns by blast
  show ?thesis
    unfolding main_def main_with_def notJson_def missingMd_def Let_def
    by (simp add: bs)
qed

theorem C7_request_gates_witness:
  "notPost \<lparr>md = Some (js ''# T''), ow_method = Some ''GET'', ow_headers = None\<rparr>
   \<and> statusCode (main \<lparr>md = Some (js ''# T''), ow_method = Some ''GET'', ow_headers = None\<rparr>) = 405
   \<and> (\<not> notPost \<lparr>md = Some (js ''# T''), ow_method = Some ''PoST'',
          ow_headers = Some [''content-type'' \<mapsto> ''text/plain'']\<rparr>
        \<and> notJson \<lparr>md = Some (js ''# T''), ow_method = Some ''PoST'',
          ow_headers = Some [''content-type'' \<mapsto> ''text/plain'']\<rparr>)
   \<and> statusCode (main \<lparr>md = Some (js ''# T''), ow_method = Some ''PoST'',
          ow_headers = Some [''content-type'' \<mapsto> ''text/plain'']\<rparr>) = 415
   \<and> (\<not> notPost \<lparr>md = None, ow_method = None,
          ow_headers = Some [''content-type'' \<mapsto> ''application/json; charset=utf-8'']\<rparr>
        \<and> \<not> notJson \<lparr>md = None, ow_method = None,
          ow_headers = Some [''content-type'' \<mapsto> ''application/json; charset=utf-8'']\<rparr>
        \<and> missingMd \<lparr>md = None, ow_method = None,
          ow_headers = Some [''content-type'' \<mapsto> ''application/json; charset=utf-8'']\<rparr>)
   \<and> statusCode (main \<lparr>md = None, ow_method = None,
          ow_headers = Some [''content-type'' \<mapsto> ''application/json; charset=utf-8'']\<rparr>) = 400
   \<and> (\<not> notPost \<lparr>md = Some (js ''hi''), ow_method = Some ''post'', ow_headers = None\<rparr>
        \<and> \<not> notJson \<lparr>md = Some (js ''hi''), ow_method = Some ''post'', ow_headers = None\<rparr>
        \<and> \<not> missingMd \<lparr>md = Some (js ''hi''), ow_method = Some ''post'', ow_headers = None\<rparr>)
   \<and> statusCode (main \<lparr>md = Some (js ''hi''), ow_method = Some ''post'', ow_headers = None\<rparr>) = 200
   \<and> main_with (\<lambda>m. Inl (ErrorInstance ''boom''))
         \<lparr>md = Some (js ''hi''), ow_method = Some ''post'', ow_headers = None\<rparr>
       = \<lparr>body = ErrorBody ''Internal Server Error: boom'', statusCode = 500,
          headers = jsonHeader\<rparr>"
proof -
  let ?a1 = "\<lparr>md = Some (js ''# T''), ow_method = Some ''GET'', ow_headers = None\<rparr>"
  let ?a2 = "\<lparr>md = Some (js ''# T''), ow_method = Some ''PoST'',
          ow_headers = Some [''content-type'' \<mapsto> ''text/plain'']\<rparr>"
  let ?a3 = "\<lparr>md = None, ow_method = None,
          ow_headers = Some [''content-type'' \<mapsto> ''application/json; charset=utf-8'']\<rparr>"
  let ?a4 = "\<lparr>md = Some (js ''hi''), ow_method = Some ''post'', ow_headers = None\<rparr>"
  have low: "toLowerCase ''GET'' = ''get''" "toLowerCase ''PoST'' = ''post''"
    "toLowerCase ''post'' = ''post''"
    by code_simp+
  have h1: "notPost ?a1" by (simp add: notPost_def low)
  have h2: "\<not> notPost ?a2 \<and> notJson ?a2"
    by (simp add: notPost_def low notJson_def contentTypeOf_def includesStr_def indexOf_def
        startsWith_def)
  have h3: "\<not> notPost ?a3 \<and> \<not> notJson ?a3 \<and> missingMd ?a3"
    by (simp add: notPost_def notJson_def contentTypeOf_def includesStr_def indexOf_def
        startsWith_def missingMd_def)
  have h4: "\<not> notPost ?a4 \<and> \<not> notJson ?a4 \<and> \<not> missingMd ?a4"
    by (simp add: notPost_def low notJson_def contentTypeOf_def missingMd_def)
  have c1: "statusCode (main ?a1) = 405"
    using C7_request_gates [of ?a1] h1 by simp
  have c2: "statusCode (main ?a2) = 415"
    using C7_request_gates [of ?a2] h2 by simp
  have c3: "statusCode (main ?a3) = 400"
    using C7_request_gates [of ?a3] h3 by simp
  have c4: "statusCode (main ?a4) = 200"
    using C7_request_gates [of ?a4 "\<lambda>m. Inr []" OtherValue] h4 by auto
  have c5: "main_with (\<lambda>m. Inl (ErrorInstance ''boom'')) ?a4
       = \<lparr>body = ErrorBody ''Internal Server Error: boom'', statusCode = 500,
          headers = jsonHeader\<rparr>"
    using C7_request_gates [of ?a4 "\<lambda>m. Inl (ErrorInstance ''boom'')" "ErrorInstance ''boom''"] h4
    by (simp add: failureText_def)
  from h1 h2 h3 h4 c1 c2 c3 c4 c5 show ?thesis by blast
qed

end
